theory Spec2Isabelle
  imports Main "HOL-Library.Monad_Syntax"
begin

section \<open>Go integers\<close>

text \<open>
  The Go type \<^verbatim>\<open>int\<close> is a signed two's-complement machine integer whose arithmetic
  wraps around silently. It is modelled at its width on the 64-bit platforms: values
  are HOL integers between \<open>minInt\<close> and \<open>maxInt\<close>, and every addition and subtraction of
  the source is followed by \<open>wrap\<close>.
\<close>

definition minInt :: int where
  "minInt = - (2 ^ 63)"

definition maxInt :: int where
  "maxInt = 2 ^ 63 - 1"

definition is_int :: "int \<Rightarrow> bool" where
  "is_int x = (minInt \<le> x \<and> x \<le> maxInt)"

definition wrap :: "int \<Rightarrow> int" where
  "wrap x = (x + 2 ^ 63) mod 2 ^ 64 - 2 ^ 63"

lemma wrap_id: "is_int x \<Longrightarrow> wrap x = x"
  by (simp add: wrap_def is_int_def minInt_def maxInt_def)

lemma wrap_is_int: "is_int (wrap x)"
  unfolding wrap_def is_int_def minInt_def maxInt_def
  using pos_mod_bound [of "2 ^ 64" "x + 2 ^ 63"] pos_mod_sign [of "2 ^ 64" "x + 2 ^ 63"]
  by simp

lemma wrap_succ_greater: "s < maxInt \<Longrightarrow> s < wrap (s + 1)"
proof (cases "minInt \<le> s + 1")
  case True
  assume "s < maxInt"
  with True have "is_int (s + 1)" by (simp add: is_int_def)
  then show ?thesis by (simp add: wrap_id)
next
  case False
  have "minInt \<le> wrap (s + 1)" using wrap_is_int [of "s + 1"] by (simp add: is_int_def)
  with False show ?thesis by simp
qed

section \<open>The shared library: directions, surveys and rooms\<close>

text \<open>Modelled from the spec: the four direction codes of package mazelib, whose source
  is not part of the repository snapshot. The spec fixes a closed enumeration
  North, South, East, West; the code passes them as \<^verbatim>\<open>int\<close> and uses \<open>0\<close> for "no
  direction", so they are four distinct non-zero integers.\<close>

definition N :: int where
  "N = 1"

definition S :: int where
  "S = 2"

definition E :: int where
  "E = 3"

definition W :: int where
  "W = 4"

lemmas dir_defs = N_def S_def E_def W_def

text \<open>Modelled from the spec: mazelib's Survey, the four wall booleans of one room.\<close>

record Survey =
  Top :: bool
  Right :: bool
  Bottom :: bool
  Left :: bool

text \<open>The zero value \<^verbatim>\<open>mazelib.Survey{}\<close>.\<close>

definition Survey0 :: Survey where
  "Survey0 = \<lparr>Top = False, Right = False, Bottom = False, Left = False\<rparr>"

text \<open>Modelled from the spec: mazelib's Room, the wall state and the two flags.\<close>

record Room =
  Treasure :: bool
  Start :: bool
  Walls :: Survey

text \<open>The zero value \<^verbatim>\<open>mazelib.Room{}\<close>.\<close>

definition Room0 :: Room where
  "Room0 = \<lparr>Treasure = False, Start = False, Walls = Survey0\<rparr>"

text \<open>Modelled from the spec: \<^verbatim>\<open>Room.AddWall(dir)\<close> of mazelib sets the wall flag
  of the given direction and leaves the other three alone.\<close>

definition AddWall :: "int \<Rightarrow> Room \<Rightarrow> Room" where
  "AddWall dir r =
     (if dir = N then r\<lparr>Walls := (Walls r)\<lparr>Top := True\<rparr>\<rparr>
      else if dir = S then r\<lparr>Walls := (Walls r)\<lparr>Bottom := True\<rparr>\<rparr>
      else if dir = E then r\<lparr>Walls := (Walls r)\<lparr>Right := True\<rparr>\<rparr>
      else if dir = W then r\<lparr>Walls := (Walls r)\<lparr>Left := True\<rparr>\<rparr>
      else r)"

text \<open>Modelled from the spec: \<^verbatim>\<open>Room.RmWall(dir)\<close> of mazelib clears the wall flag
  of the given direction and leaves the other three alone.\<close>

definition RmWall :: "int \<Rightarrow> Room \<Rightarrow> Room" where
  "RmWall dir r =
     (if dir = N then r\<lparr>Walls := (Walls r)\<lparr>Top := False\<rparr>\<rparr>
      else if dir = S then r\<lparr>Walls := (Walls r)\<lparr>Bottom := False\<rparr>\<rparr>
      else if dir = E then r\<lparr>Walls := (Walls r)\<lparr>Right := False\<rparr>\<rparr>
      else if dir = W then r\<lparr>Walls := (Walls r)\<lparr>Left := False\<rparr>\<rparr>
      else r)"

text \<open>\<^verbatim>\<open>Survey.HasWall(dir)\<close> of the solver: a \<^verbatim>\<open>switch\<close> with no default, so any
  other code yields \<^verbatim>\<open>false\<close>.\<close>

definition HasWall :: "Survey \<Rightarrow> int \<Rightarrow> bool" where
  "HasWall s dir =
     (if dir = N then Top s
      else if dir = S then Bottom s
      else if dir = W then Left s
      else if dir = E then Right s
      else False)"

section \<open>Package common: coordinates\<close>

record Coordinate =
  X :: int
  Y :: int

definition NewCoordinate :: "int \<Rightarrow> int \<Rightarrow> Coordinate" where
  "NewCoordinate x y = \<lparr>X = x, Y = y\<rparr>"

definition Coordinate_Left :: "Coordinate \<Rightarrow> Coordinate" where
  "Coordinate_Left c = \<lparr>X = wrap (X c - 1), Y = Y c\<rparr>"

definition Coordinate_Right :: "Coordinate \<Rightarrow> Coordinate" where
  "Coordinate_Right c = \<lparr>X = wrap (X c + 1), Y = Y c\<rparr>"

definition Up :: "Coordinate \<Rightarrow> Coordinate" where
  "Up c = \<lparr>X = X c, Y = wrap (Y c - 1)\<rparr>"

definition Down :: "Coordinate \<Rightarrow> Coordinate" where
  "Down c = \<lparr>X = X c, Y = wrap (Y c + 1)\<rparr>"

text \<open>A \<^verbatim>\<open>switch\<close> with no default: any other code returns the zero coordinate.\<close>

definition Neighbor :: "Coordinate \<Rightarrow> int \<Rightarrow> Coordinate" where
  "Neighbor c dir =
     (if dir = N then Up c
      else if dir = S then Down c
      else if dir = W then Coordinate_Left c
      else if dir = E then Coordinate_Right c
      else \<lparr>X = 0, Y = 0\<rparr>)"

definition Neighbors :: "Coordinate \<Rightarrow> Coordinate list" where
  "Neighbors c = [Up c, Down c, Coordinate_Left c, Coordinate_Right c]"

definition GetDir :: "Coordinate \<Rightarrow> Coordinate \<Rightarrow> int" where
  "GetDir c cc =
     (if X c = X cc then (if Y c < Y cc then S else N)
      else if X c < X cc then E
      else W)"

text \<open>The map \<^verbatim>\<open>ReverseDirection\<close>; a key that is not in a Go map reads as \<open>0\<close>.\<close>

definition ReverseDirection :: "int \<Rightarrow> int" where
  "ReverseDirection dir =
     (if dir = N then S
      else if dir = S then N
      else if dir = E then W
      else if dir = W then E
      else 0)"

text \<open>A coordinate both of whose components are Go integers.\<close>

definition is_coord :: "Coordinate \<Rightarrow> bool" where
  "is_coord c = (is_int (X c) \<and> is_int (Y c))"

text \<open>Two coordinates are adjacent when they differ by one unit on exactly one axis.\<close>

definition adjacent :: "Coordinate \<Rightarrow> Coordinate \<Rightarrow> bool" where
  "adjacent a b = (\<bar>X a - X b\<bar> + \<bar>Y a - Y b\<bar> = 1)"

text \<open>The step from \<open>c\<close> in direction \<open>dir\<close> stays inside the range of \<^verbatim>\<open>int\<close>.\<close>

definition step_fits :: "Coordinate \<Rightarrow> int \<Rightarrow> bool" where
  "step_fits c dir =
     (if dir = N then minInt < Y c
      else if dir = S then Y c < maxInt
      else if dir = W then minInt < X c
      else if dir = E then X c < maxInt
      else False)"

lemma Neighbor_plain:
  assumes "is_coord c" and "step_fits c dir"
  shows "Neighbor c dir =
     (if dir = N then \<lparr>X = X c, Y = Y c - 1\<rparr>
      else if dir = S then \<lparr>X = X c, Y = Y c + 1\<rparr>
      else if dir = W then \<lparr>X = X c - 1, Y = Y c\<rparr>
      else \<lparr>X = X c + 1, Y = Y c\<rparr>)"
proof -
  have "is_int (Y c - 1)" if "dir = N"
    using assms that by (simp add: is_coord_def step_fits_def is_int_def)
  moreover have "is_int (Y c + 1)" if "dir = S"
    using assms that by (simp add: is_coord_def step_fits_def is_int_def dir_defs)
  moreover have "is_int (X c - 1)" if "dir = W"
    using assms that by (simp add: is_coord_def step_fits_def is_int_def dir_defs)
  moreover have "is_int (X c + 1)" if "dir = E"
    using assms that by (simp add: is_coord_def step_fits_def is_int_def dir_defs)
  moreover have "dir = N \<or> dir = S \<or> dir = W \<or> dir = E"
    using assms(2) by (simp add: step_fits_def split: if_splits)
  ultimately show ?thesis
    by (auto simp: Neighbor_def Up_def Down_def Coordinate_Left_def Coordinate_Right_def wrap_id)
qed

lemma adjacent_cases:
  assumes "adjacent a b"
  shows "(X b = X a \<and> Y b = Y a - 1) \<or> (X b = X a \<and> Y b = Y a + 1)
       \<or> (X b = X a - 1 \<and> Y b = Y a) \<or> (X b = X a + 1 \<and> Y b = Y a)"
  using assms unfolding adjacent_def by (auto simp: abs_if split: if_splits)

lemma GetDir_Neighbor:
  assumes "is_coord c" and "step_fits c d"
  shows "GetDir c (Neighbor c d) = d"
proof -
  from assms(2) have "d = N \<or> d = S \<or> d = W \<or> d = E"
    by (simp add: step_fits_def split: if_splits)
  with assms show ?thesis
    by (auto simp: Neighbor_plain GetDir_def dir_defs)
qed

lemma Neighbor_GetDir:
  assumes "is_coord a" and "is_coord b" and "adjacent a b"
  shows "Neighbor a (GetDir a b) = b"
proof -
  from adjacent_cases [OF assms(3)]
  consider (n) "X b = X a" "Y b = Y a - 1" | (s) "X b = X a" "Y b = Y a + 1"
    | (w) "X b = X a - 1" "Y b = Y a" | (e) "X b = X a + 1" "Y b = Y a"
    by blast
  then show ?thesis
  proof cases
    case n
    then have "GetDir a b = N" by (simp add: GetDir_def)
    moreover have "is_int (Y a - 1)" using assms(2) n by (simp add: is_coord_def)
    ultimately show ?thesis using n by (simp add: Neighbor_def Up_def wrap_id)
  next
    case s
    then have "GetDir a b = S" by (simp add: GetDir_def)
    moreover have "is_int (Y a + 1)" using assms(2) s by (simp add: is_coord_def)
    ultimately show ?thesis using s by (simp add: Neighbor_def Down_def wrap_id dir_defs)
  next
    case w
    then have "GetDir a b = W" by (simp add: GetDir_def)
    moreover have "is_int (X a - 1)" using assms(2) w by (simp add: is_coord_def)
    ultimately show ?thesis
      using w by (simp add: Neighbor_def Coordinate_Left_def wrap_id dir_defs)
  next
    case e
    then have "GetDir a b = E" by (simp add: GetDir_def)
    moreover have "is_int (X a + 1)" using assms(2) e by (simp add: is_coord_def)
    ultimately show ?thesis
      using e by (simp add: Neighbor_def Coordinate_Right_def wrap_id dir_defs)
  qed
qed

text \<open>
  Claim C10 (as amended). For every coordinate \<open>c\<close> and every direction \<open>d\<close> among
  North, South, East and West for which the unit step from \<open>c\<close> does not leave the
  range of \<^verbatim>\<open>int\<close>, \<open>GetDir c (Neighbor c d) = d\<close>. Consequently for any two
  adjacent coordinates \<open>a\<close> and \<open>b\<close>, \<open>Neighbor a (GetDir a b) = b\<close>: \<open>GetDir\<close> is a left
  inverse of \<open>Neighbor\<close> on each cell.
\<close>

theorem GetDir_Neighbor_inverse:
  "(is_coord c \<and> step_fits c d \<longrightarrow> GetDir c (Neighbor c d) = d) \<and>
   (is_coord a \<and> is_coord b \<and> adjacent a b \<longrightarrow> Neighbor a (GetDir a b) = b)"
  using GetDir_Neighbor [of c d] Neighbor_GetDir [of a b] by blast

theorem GetDir_Neighbor_inverse_witness:
  "GetDir \<lparr>X = 2, Y = 3\<rparr> (Neighbor \<lparr>X = 2, Y = 3\<rparr> E) = E \<and>
   Neighbor \<lparr>X = 2, Y = 3\<rparr> (GetDir \<lparr>X = 2, Y = 3\<rparr> \<lparr>X = 2, Y = 2\<rparr>) = \<lparr>X = 2, Y = 2\<rparr>"
  using GetDir_Neighbor_inverse [of "\<lparr>X = 2, Y = 3\<rparr>" E "\<lparr>X = 2, Y = 3\<rparr>" "\<lparr>X = 2, Y = 2\<rparr>"]
  by (simp add: is_coord_def is_int_def minInt_def maxInt_def step_fits_def adjacent_def
      dir_defs)

text \<open>
  The claim as stated, for every coordinate, fails where the step overflows: the East
  neighbour of a cell in column \<open>maxInt\<close> is in column \<open>minInt\<close>, and \<open>GetDir\<close> answers West.
\<close>

theorem GetDir_Neighbor_overflow:
  "is_coord \<lparr>X = 9223372036854775807, Y = 0\<rparr> \<and>
   Neighbor \<lparr>X = 9223372036854775807, Y = 0\<rparr> E = \<lparr>X = - 9223372036854775808, Y = 0\<rparr> \<and>
   GetDir \<lparr>X = 9223372036854775807, Y = 0\<rparr> (Neighbor \<lparr>X = 9223372036854775807, Y = 0\<rparr> E) = W \<and>
   W \<noteq> E"
  by (simp add: is_coord_def is_int_def minInt_def maxInt_def Neighbor_def
      Coordinate_Right_def wrap_def GetDir_def dir_defs)

section \<open>The server: a maze session\<close>

text \<open>
  The struct \<^verbatim>\<open>Maze\<close>: the grid \<^verbatim>\<open>rooms[y][x]\<close>, the start, the treasure
  (\<^verbatim>\<open>end\<close> in the source), the occupant and the step counter.
\<close>

record Maze =
  rooms :: "Room list list"
  start :: Coordinate
  endc :: Coordinate
  icarus :: Coordinate
  StepsTaken :: int

text \<open>The error values of the server. \<open>None\<close> of type \<open>error option\<close> is Go's \<^verbatim>\<open>nil\<close>.\<close>

datatype error =
  ErrVictory
  | ErrWalls
  | ErrOutside
  | ErrStartInTreasure
  | ErrTreasureAtStart

text \<open>
  \<^verbatim>\<open>Width\<close> reads \<^verbatim>\<open>len(m.rooms[0])\<close>, which panics on a maze with no row. The only
  constructor, \<^verbatim>\<open>emptyMaze\<close>, builds a rectangle, and \<^verbatim>\<open>createMaze\<close> asks for its
  width before anything else; the predicate \<open>wf_maze\<close> records that shape, and the
  theorems about the grid assume it.
\<close>

definition Width :: "Maze \<Rightarrow> int" where
  "Width m = (case rooms m of [] \<Rightarrow> 0 | r # _ \<Rightarrow> int (length r))"

definition Height :: "Maze \<Rightarrow> int" where
  "Height m = int (length (rooms m))"

definition wf_maze :: "Maze \<Rightarrow> bool" where
  "wf_maze m =
     (rooms m \<noteq> [] \<and> list_all (\<lambda>row. int (length row) = Width m) (rooms m)
      \<and> Width m \<le> maxInt \<and> Height m \<le> maxInt)"

text \<open>
  \<^verbatim>\<open>GetRoom\<close> returns a pointer and an error. The first component is the room read
  through the pointer: a room of the grid, or a fresh zero room together with the error.
\<close>

definition GetRoom :: "Maze \<Rightarrow> int \<Rightarrow> int \<Rightarrow> Room \<times> error option" where
  "GetRoom m x y =
     (if x < 0 \<or> y < 0 \<or> x \<ge> Width m \<or> y \<ge> Height m then (Room0, Some ErrOutside)
      else (rooms m ! nat y ! nat x, None))"

text \<open>
  A write through the pointer that \<^verbatim>\<open>GetRoom m x y\<close> returned: it changes the room of
  the grid, or the fresh room that nobody else sees.
\<close>

definition updRoom :: "Maze \<Rightarrow> int \<Rightarrow> int \<Rightarrow> (Room \<Rightarrow> Room) \<Rightarrow> Maze" where
  "updRoom m x y f =
     (if snd (GetRoom m x y) \<noteq> None then m
      else m\<lparr>rooms := (rooms m)[nat y := (rooms m ! nat y)[nat x := f (rooms m ! nat y ! nat x)]]\<rparr>)"

definition Icarus :: "Maze \<Rightarrow> int \<times> int" where
  "Icarus m = (X (icarus m), Y (icarus m))"

definition Maze_contains :: "Maze \<Rightarrow> Coordinate \<Rightarrow> bool" where
  "Maze_contains m c = (0 \<le> X c \<and> X c < Width m \<and> 0 \<le> Y c \<and> Y c < Height m)"

definition SetStartPoint :: "Maze \<Rightarrow> int \<Rightarrow> int \<Rightarrow> error option \<times> Maze" where
  "SetStartPoint m x y =
     (case GetRoom m x y of
        (r, Some err) \<Rightarrow> (Some err, m)
      | (r, None) \<Rightarrow>
          if Treasure r then (Some ErrStartInTreasure, m)
          else (None, (updRoom m x y (\<lambda>r. r\<lparr>Start := True\<rparr>))\<lparr>icarus := \<lparr>X = x, Y = y\<rparr>\<rparr>))"

definition SetTreasure :: "Maze \<Rightarrow> int \<Rightarrow> int \<Rightarrow> error option \<times> Maze" where
  "SetTreasure m x y =
     (case GetRoom m x y of
        (r, Some err) \<Rightarrow> (Some err, m)
      | (r, None) \<Rightarrow>
          if Start r then (Some ErrTreasureAtStart, m)
          else (None, (updRoom m x y (\<lambda>r. r\<lparr>Treasure := True\<rparr>))\<lparr>endc := \<lparr>X = x, Y = y\<rparr>\<rparr>))"

text \<open>\<^verbatim>\<open>Discover\<close> drops the error of \<^verbatim>\<open>GetRoom\<close>: both of its branches return
  \<^verbatim>\<open>nil\<close>.\<close>

definition Discover :: "Maze \<Rightarrow> int \<Rightarrow> int \<Rightarrow> Survey \<times> error option" where
  "Discover m x y =
     (case GetRoom m x y of
        (r, Some err) \<Rightarrow> (Survey0, None)
      | (r, None) \<Rightarrow> (Walls r, None))"

definition LookAround :: "Maze \<Rightarrow> Survey \<times> error option" where
  "LookAround m =
     (if X (endc m) = X (icarus m) \<and> Y (endc m) = Y (icarus m) then (Survey0, Some ErrVictory)
      else Discover m (X (icarus m)) (Y (icarus m)))"

text \<open>The four move methods return the error and the session as they leave it.\<close>

definition MoveLeft :: "Maze \<Rightarrow> error option \<times> Maze" where
  "MoveLeft m =
     (case LookAround m of
        (s, Some e) \<Rightarrow> (Some e, m)
      | (s, None) \<Rightarrow>
          if Left s then (Some ErrWalls, m)
          else (case Icarus m of (x, y) \<Rightarrow>
            (case GetRoom m (wrap (x - 1)) y of
               (r, Some err) \<Rightarrow> (Some err, m)
             | (r, None) \<Rightarrow>
                 (None, m\<lparr>icarus := \<lparr>X = wrap (x - 1), Y = y\<rparr>,
                           StepsTaken := wrap (StepsTaken m + 1)\<rparr>))))"

definition MoveRight :: "Maze \<Rightarrow> error option \<times> Maze" where
  "MoveRight m =
     (case LookAround m of
        (s, Some e) \<Rightarrow> (Some e, m)
      | (s, None) \<Rightarrow>
          if Right s then (Some ErrWalls, m)
          else (case Icarus m of (x, y) \<Rightarrow>
            (case GetRoom m (wrap (x + 1)) y of
               (r, Some err) \<Rightarrow> (Some err, m)
             | (r, None) \<Rightarrow>
                 (None, m\<lparr>icarus := \<lparr>X = wrap (x + 1), Y = y\<rparr>,
                           StepsTaken := wrap (StepsTaken m + 1)\<rparr>))))"

definition MoveUp :: "Maze \<Rightarrow> error option \<times> Maze" where
  "MoveUp m =
     (case LookAround m of
        (s, Some e) \<Rightarrow> (Some e, m)
      | (s, None) \<Rightarrow>
          if Top s then (Some ErrWalls, m)
          else (case Icarus m of (x, y) \<Rightarrow>
            (case GetRoom m x (wrap (y - 1)) of
               (r, Some err) \<Rightarrow> (Some err, m)
             | (r, None) \<Rightarrow>
                 (None, m\<lparr>icarus := \<lparr>X = x, Y = wrap (y - 1)\<rparr>,
                           StepsTaken := wrap (StepsTaken m + 1)\<rparr>))))"

definition MoveDown :: "Maze \<Rightarrow> error option \<times> Maze" where
  "MoveDown m =
     (case LookAround m of
        (s, Some e) \<Rightarrow> (Some e, m)
      | (s, None) \<Rightarrow>
          if Bottom s then (Some ErrWalls, m)
          else (case Icarus m of (x, y) \<Rightarrow>
            (case GetRoom m x (wrap (y + 1)) of
               (r, Some err) \<Rightarrow> (Some err, m)
             | (r, None) \<Rightarrow>
                 (None, m\<lparr>icarus := \<lparr>X = x, Y = wrap (y + 1)\<rparr>,
                           StepsTaken := wrap (StepsTaken m + 1)\<rparr>))))"

text \<open>
  The \<^verbatim>\<open>switch\<close> of the handler \<^verbatim>\<open>MoveDirection\<close> on the direction token; any other
  token leaves \<^verbatim>\<open>err\<close> at \<^verbatim>\<open>nil\<close> and the session alone.
\<close>

definition MoveDirection :: "string \<Rightarrow> Maze \<Rightarrow> error option \<times> Maze" where
  "MoveDirection direction m =
     (if direction = ''left'' then MoveLeft m
      else if direction = ''right'' then MoveRight m
      else if direction = ''down'' then MoveDown m
      else if direction = ''up'' then MoveUp m
      else (None, m))"

text \<open>The solver's table \<^verbatim>\<open>d2s\<close> from direction codes to tokens; a missing key reads
  as the empty string.\<close>

definition d2s :: "int \<Rightarrow> string" where
  "d2s dir =
     (if dir = N then ''up''
      else if dir = S then ''down''
      else if dir = E then ''right''
      else if dir = W then ''left''
      else [])"

text \<open>The occupant stands on the treasure.\<close>

definition at_treasure :: "Maze \<Rightarrow> bool" where
  "at_treasure m = (X (endc m) = X (icarus m) \<and> Y (endc m) = Y (icarus m))"

text \<open>The room the occupant is in, as \<^verbatim>\<open>GetRoom\<close> reads it.\<close>

definition here :: "Maze \<Rightarrow> Room" where
  "here m = fst (GetRoom m (X (icarus m)) (Y (icarus m)))"

text \<open>What one move request does, in the order of the checks of the source.\<close>

definition move_result :: "int \<Rightarrow> Maze \<Rightarrow> error option \<times> Maze" where
  "move_result d m =
     (if at_treasure m then (Some ErrVictory, m)
      else if HasWall (Walls (here m)) d then (Some ErrWalls, m)
      else if \<not> Maze_contains m (Neighbor (icarus m) d) then (Some ErrOutside, m)
      else (None, m\<lparr>icarus := Neighbor (icarus m) d, StepsTaken := wrap (StepsTaken m + 1)\<rparr>))"

lemma Discover_here: "Discover m (X (icarus m)) (Y (icarus m)) = (Walls (here m), None)"
  by (simp add: Discover_def here_def GetRoom_def Room0_def)

lemma GetRoom_err_iff: "snd (GetRoom m x y) = None \<longleftrightarrow> Maze_contains m \<lparr>X = x, Y = y\<rparr>"
  by (auto simp: GetRoom_def Maze_contains_def)

lemma GetRoom_err: "snd (GetRoom m x y) = None \<or> snd (GetRoom m x y) = Some ErrOutside"
  by (simp add: GetRoom_def)

lemma MoveLeft_result: "MoveLeft m = move_result W m"
  using GetRoom_err_iff [of m "wrap (X (icarus m) - 1)" "Y (icarus m)"]
        GetRoom_err [of m "wrap (X (icarus m) - 1)" "Y (icarus m)"]
  by (cases "GetRoom m (wrap (X (icarus m) - 1)) (Y (icarus m))")
     (auto simp: MoveLeft_def move_result_def LookAround_def at_treasure_def Discover_here
        HasWall_def Neighbor_def Coordinate_Left_def Icarus_def dir_defs)

lemma MoveRight_result: "MoveRight m = move_result E m"
  using GetRoom_err_iff [of m "wrap (X (icarus m) + 1)" "Y (icarus m)"]
        GetRoom_err [of m "wrap (X (icarus m) + 1)" "Y (icarus m)"]
  by (cases "GetRoom m (wrap (X (icarus m) + 1)) (Y (icarus m))")
     (auto simp: MoveRight_def move_result_def LookAround_def at_treasure_def Discover_here
        HasWall_def Neighbor_def Coordinate_Right_def Icarus_def dir_defs)

lemma MoveUp_result: "MoveUp m = move_result N m"
  using GetRoom_err_iff [of m "X (icarus m)" "wrap (Y (icarus m) - 1)"]
        GetRoom_err [of m "X (icarus m)" "wrap (Y (icarus m) - 1)"]
  by (cases "GetRoom m (X (icarus m)) (wrap (Y (icarus m) - 1))")
     (auto simp: MoveUp_def move_result_def LookAround_def at_treasure_def Discover_here
        HasWall_def Neighbor_def Up_def Icarus_def dir_defs)

lemma MoveDown_result: "MoveDown m = move_result S m"
  using GetRoom_err_iff [of m "X (icarus m)" "wrap (Y (icarus m) + 1)"]
        GetRoom_err [of m "X (icarus m)" "wrap (Y (icarus m) + 1)"]
  by (cases "GetRoom m (X (icarus m)) (wrap (Y (icarus m) + 1))")
     (auto simp: MoveDown_def move_result_def LookAround_def at_treasure_def Discover_here
        HasWall_def Neighbor_def Down_def Icarus_def dir_defs)

lemma MoveDirection_result:
  assumes "d = N \<or> d = S \<or> d = E \<or> d = W"
  shows "MoveDirection (d2s d) m = move_result d m"
  using assms
  by (auto simp: MoveDirection_def d2s_def dir_defs MoveLeft_result [unfolded dir_defs]
      MoveRight_result [unfolded dir_defs] MoveUp_result [unfolded dir_defs]
      MoveDown_result [unfolded dir_defs])

subsection \<open>A two-room session\<close>

text \<open>
  The maze on a grid of width 2 and height 1: two rooms side by side with the passage
  between them open and every outer wall closed, the start on the left and the treasure
  on the right. \<open>corridor c n\<close> is the session with the occupant at \<open>c\<close> after \<open>n\<close> steps.
\<close>

definition corridor :: "Coordinate \<Rightarrow> int \<Rightarrow> Maze" where
  "corridor c n =
     \<lparr>rooms =
        [[\<lparr>Treasure = False, Start = True,
            Walls = \<lparr>Top = True, Right = False, Bottom = True, Left = True\<rparr>\<rparr>,
          \<lparr>Treasure = True, Start = False,
            Walls = \<lparr>Top = True, Right = True, Bottom = True, Left = False\<rparr>\<rparr>]],
      start = \<lparr>X = 0, Y = 0\<rparr>,
      endc = \<lparr>X = 1, Y = 0\<rparr>,
      icarus = c,
      StepsTaken = n\<rparr>"

lemmas session_defs =
  MoveDirection_def MoveLeft_def MoveRight_def MoveUp_def MoveDown_def LookAround_def
  Discover_def GetRoom_def Width_def Height_def Icarus_def Maze_contains_def here_def
  at_treasure_def HasWall_def Neighbor_def Up_def Down_def Coordinate_Left_def
  Coordinate_Right_def d2s_def Room0_def Survey0_def

subsection \<open>Moving\<close>

text \<open>
  Claim C3 (as amended). For every session state and every direction, a move fails
  with the victory signal when the occupant stands on the treasure; otherwise it fails
  with the wall error when the occupant's room has a wall in that direction; otherwise
  it fails with the out-of-bounds error when the prospective neighbour lies outside the
  grid; otherwise it succeeds, sets the occupant's position to that neighbour and
  increments the step counter by one. It fails in exactly those three cases.
\<close>

theorem move_outcome:
  "d \<in> {N, S, E, W} \<Longrightarrow>
   MoveDirection (d2s d) m =
     (if at_treasure m then (Some ErrVictory, m)
      else if HasWall (Walls (here m)) d then (Some ErrWalls, m)
      else if \<not> Maze_contains m (Neighbor (icarus m) d) then (Some ErrOutside, m)
      else (None, m\<lparr>icarus := Neighbor (icarus m) d,
                     StepsTaken := wrap (StepsTaken m + 1)\<rparr>))"
  using MoveDirection_result [of d m] by (simp add: move_result_def)

theorem move_outcome_witness:
  "MoveDirection (d2s E) (corridor \<lparr>X = 0, Y = 0\<rparr> 0) = (None, corridor \<lparr>X = 1, Y = 0\<rparr> 1) \<and>
   MoveDirection (d2s N) (corridor \<lparr>X = 0, Y = 0\<rparr> 0) = (Some ErrWalls, corridor \<lparr>X = 0, Y = 0\<rparr> 0)"
  using move_outcome [of E "corridor \<lparr>X = 0, Y = 0\<rparr> 0"]
        move_outcome [of N "corridor \<lparr>X = 0, Y = 0\<rparr> 0"]
  by (simp add: corridor_def session_defs dir_defs wrap_def)

text \<open>
  The claim as stated knows two failures only. On the treasure the room to the West is
  inside the grid and no wall is in the way, and the move is refused all the same.
\<close>

theorem move_on_treasure_refused:
  "\<not> HasWall (Walls (here (corridor \<lparr>X = 1, Y = 0\<rparr> 1))) W \<and>
   Maze_contains (corridor \<lparr>X = 1, Y = 0\<rparr> 1) (Neighbor (icarus (corridor \<lparr>X = 1, Y = 0\<rparr> 1)) W) \<and>
   MoveDirection ''left'' (corridor \<lparr>X = 1, Y = 0\<rparr> 1) = (Some ErrVictory, corridor \<lparr>X = 1, Y = 0\<rparr> 1)"
  by (simp add: corridor_def session_defs dir_defs wrap_def)

text \<open>
  Claim C5 (as amended). Whenever a move is rejected the session state is unchanged:
  the occupant's position and the step counter keep their values. An accepted move
  adds one to the step counter in Go's wrapping arithmetic, so the counter grows by
  exactly one on each accepted move, and never decreases, as long as it is below the
  largest \<^verbatim>\<open>int\<close>.
\<close>

theorem rejected_move_keeps_session:
  "d \<in> {N, S, E, W} \<Longrightarrow>
   (fst (MoveDirection (d2s d) m) \<noteq> None \<longrightarrow> snd (MoveDirection (d2s d) m) = m) \<and>
   (fst (MoveDirection (d2s d) m) = None \<longrightarrow>
      StepsTaken (snd (MoveDirection (d2s d) m)) = wrap (StepsTaken m + 1) \<and>
      (StepsTaken m < maxInt \<longrightarrow> StepsTaken m < StepsTaken (snd (MoveDirection (d2s d) m))) \<and>
      (is_int (StepsTaken m) \<and> StepsTaken m < maxInt \<longrightarrow>
         StepsTaken (snd (MoveDirection (d2s d) m)) = StepsTaken m + 1))"
proof -
  assume "d \<in> {N, S, E, W}"
  then have r: "MoveDirection (d2s d) m = move_result d m"
    using MoveDirection_result [of d m] by simp
  have "is_int (StepsTaken m + 1)" if "is_int (StepsTaken m)" "StepsTaken m < maxInt"
    using that by (simp add: is_int_def)
  then show ?thesis
    unfolding r by (auto simp: move_result_def wrap_succ_greater wrap_id)
qed

theorem rejected_move_keeps_session_witness:
  "fst (MoveDirection (d2s N) (corridor \<lparr>X = 0, Y = 0\<rparr> 5)) \<noteq> None \<and>
   snd (MoveDirection (d2s N) (corridor \<lparr>X = 0, Y = 0\<rparr> 5)) = corridor \<lparr>X = 0, Y = 0\<rparr> 5 \<and>
   fst (MoveDirection (d2s E) (corridor \<lparr>X = 0, Y = 0\<rparr> 5)) = None \<and>
   StepsTaken (snd (MoveDirection (d2s E) (corridor \<lparr>X = 0, Y = 0\<rparr> 5))) = 6"
  using rejected_move_keeps_session [of N "corridor \<lparr>X = 0, Y = 0\<rparr> 5"]
        rejected_move_keeps_session [of E "corridor \<lparr>X = 0, Y = 0\<rparr> 5"]
  by (simp add: corridor_def session_defs dir_defs wrap_def is_int_def minInt_def maxInt_def)

text \<open>
  The claim as stated lets the counter never decrease. At the largest \<^verbatim>\<open>int\<close> an
  accepted move wraps it around to the smallest.
\<close>

theorem step_counter_wraps:
  "fst (MoveDirection ''right'' (corridor \<lparr>X = 0, Y = 0\<rparr> 9223372036854775807)) = None \<and>
   StepsTaken (snd (MoveDirection ''right'' (corridor \<lparr>X = 0, Y = 0\<rparr> 9223372036854775807)))
     = - 9223372036854775808 \<and>
   StepsTaken (snd (MoveDirection ''right'' (corridor \<lparr>X = 0, Y = 0\<rparr> 9223372036854775807)))
     < StepsTaken (corridor \<lparr>X = 0, Y = 0\<rparr> 9223372036854775807)"
  by (simp add: corridor_def session_defs dir_defs wrap_def)

subsection \<open>Discovering a room\<close>

text \<open>
  Claim C4. For a coordinate outside the grid \<^verbatim>\<open>Discover\<close> is to fail with an
  out-of-bounds condition. The code does not: at \<open>(-1, 0)\<close> on the two-room grid
  \<^verbatim>\<open>GetRoom\<close> reports the error, and \<^verbatim>\<open>Discover\<close> returns the zero survey with a
  \<^verbatim>\<open>nil\<close> error. For a coordinate inside the grid it returns the four wall booleans of
  that room.
\<close>

theorem Discover_outside_returns_nil:
  "\<not> Maze_contains (corridor \<lparr>X = 0, Y = 0\<rparr> 0) \<lparr>X = - 1, Y = 0\<rparr> \<and>
   snd (GetRoom (corridor \<lparr>X = 0, Y = 0\<rparr> 0) (- 1) 0) = Some ErrOutside \<and>
   Discover (corridor \<lparr>X = 0, Y = 0\<rparr> 0) (- 1) 0 = (Survey0, None) \<and>
   Discover (corridor \<lparr>X = 0, Y = 0\<rparr> 0) 1 0
     = (\<lparr>Top = True, Right = True, Bottom = True, Left = False\<rparr>, None)"
  by (simp add: corridor_def Discover_def GetRoom_def Maze_contains_def Width_def Height_def)

lemma Discover_never_fails: "snd (Discover m x y) = None"
  by (simp add: Discover_def split: prod.splits option.splits)

lemma Discover_inside:
  "Maze_contains m \<lparr>X = x, Y = y\<rparr> \<Longrightarrow> Discover m x y = (Walls (rooms m ! nat y ! nat x), None)"
  by (auto simp: Discover_def GetRoom_def Maze_contains_def)

section \<open>The pseudo-random source\<close>

text \<open>
  The code draws from Go's \<^verbatim>\<open>math/rand\<close>. The model makes the outcomes an explicit
  argument: \<open>ints\<close> are the outcomes still to come of \<^verbatim>\<open>rand.Intn\<close> and \<open>perms\<close> those of
  \<^verbatim>\<open>rand.Perm\<close>. Every function that draws takes the source and returns what is left
  of it, and the theorems hold for every source, that is, for any outcomes of the random
  choices.
\<close>

record rand_src =
  ints :: "nat list"
  perms :: "nat list list"

text \<open>
  \<^verbatim>\<open>rand.Intn(n)\<close> panics for \<open>n \<le> 0\<close> (the result \<open>None\<close>) and returns a number of
  \<open>[0, n)\<close> otherwise: the next outcome reduced modulo \<open>n\<close>, so that every list is a
  source and every outcome is that of some source; an exhausted source answers \<open>0\<close>.
\<close>

definition Intn :: "int \<Rightarrow> rand_src \<Rightarrow> (int \<times> rand_src) option" where
  "Intn n r =
     (if n \<le> 0 then None
      else (case ints r of
              [] \<Rightarrow> Some (0, r)
            | k # ks \<Rightarrow> Some (int k mod n, r\<lparr>ints := ks\<rparr>)))"

text \<open>
  \<^verbatim>\<open>rand.Perm(n)\<close> returns a permutation of \<open>[0, n)\<close>: the next outcome where it is one,
  the identity permutation otherwise.
\<close>

definition is_perm :: "nat \<Rightarrow> nat list \<Rightarrow> bool" where
  "is_perm n p = (length p = n \<and> distinct p \<and> list_all (\<lambda>i. i < n) p)"

definition Perm :: "nat \<Rightarrow> rand_src \<Rightarrow> nat list \<times> rand_src" where
  "Perm n r =
     (case perms r of
        [] \<Rightarrow> ([0..<n], r)
      | p # ps \<Rightarrow> (if is_perm n p then p else [0..<n], r\<lparr>perms := ps\<rparr>))"

lemma is_perm_set: "is_perm n p \<Longrightarrow> set p = {0..<n}"
proof -
  assume h: "is_perm n p"
  then have sub: "set p \<subseteq> {0..<n}" by (auto simp: is_perm_def list_all_iff)
  from h have "card (set p) = n" by (simp add: is_perm_def distinct_card)
  with sub show ?thesis by (simp add: card_subset_eq)
qed

lemma is_perm_upt: "is_perm n [0..<n]"
  by (simp add: is_perm_def list_all_iff)

lemma Perm_is_perm: "is_perm n (fst (Perm n r))"
  by (simp add: Perm_def is_perm_upt split: list.splits)

section \<open>The solver: explored memory and the active path\<close>

text \<open>
  The solver of the latest revision, which works on \<^verbatim>\<open>common.Coordinate\<close>. Explored
  memory is a Go map from coordinates to surveys; reading a key that is not there gives
  the zero survey.
\<close>

definition allDirections :: "int list" where
  "allDirections = [N, S, E, W]"

type_synonym explored = "Coordinate \<rightharpoonup> Survey"

definition survey_at :: "explored \<Rightarrow> Coordinate \<Rightarrow> Survey" where
  "survey_at explored c = (case explored c of None \<Rightarrow> Survey0 | Some s \<Rightarrow> s)"

text \<open>\<^verbatim>\<open>pickNeighbor\<close>: the loop over the drawn order of the four directions.\<close>

fun pickNeighbor_loop ::
  "nat list \<Rightarrow> Coordinate \<Rightarrow> Survey \<Rightarrow> explored \<Rightarrow> Coordinate \<times> int \<times> bool" where
  "pickNeighbor_loop [] coordinate survey explored = (coordinate, 0, False)"
| "pickNeighbor_loop (idx # idxs) coordinate survey explored =
     (let dir = allDirections ! idx in
      if \<not> HasWall survey dir \<and> explored (Neighbor coordinate dir) = None
      then (Neighbor coordinate dir, dir, True)
      else pickNeighbor_loop idxs coordinate survey explored)"

definition pickNeighbor ::
  "Coordinate \<Rightarrow> explored \<Rightarrow> rand_src \<Rightarrow> (Coordinate \<times> int \<times> bool) \<times> rand_src" where
  "pickNeighbor coordinate explored r =
     (case Perm 4 r of (idxs, r') \<Rightarrow>
        (pickNeighbor_loop idxs coordinate (survey_at explored coordinate) explored, r'))"

text \<open>
  The active path: a slice and the number of its entries that are in use. Indexing
  the slice out of range panics.
\<close>

record path =
  coordinates :: "Coordinate list"
  size :: int

datatype failure = PanicIndex | ErrEmptyPath | ErrNoOpening | PanicNoWayBack

definition newPath :: path where
  "newPath = \<lparr>coordinates = [], size = 0\<rparr>"

definition push :: "path \<Rightarrow> Coordinate \<Rightarrow> failure + path" where
  "push p coordinate =
     (if size p \<ge> int (length (coordinates p))
      then Inr \<lparr>coordinates = coordinates p @ [coordinate], size = wrap (size p + 1)\<rparr>
      else if size p < 0 then Inl PanicIndex
      else Inr \<lparr>coordinates = (coordinates p)[nat (size p) := coordinate],
                size = wrap (size p + 1)\<rparr>)"

definition top :: "path \<Rightarrow> failure + Coordinate" where
  "top p =
     (if size p = 0 then Inl ErrEmptyPath
      else if wrap (size p - 1) < 0 \<or> wrap (size p - 1) \<ge> int (length (coordinates p))
        then Inl PanicIndex
      else Inr (coordinates p ! nat (wrap (size p - 1))))"

text \<open>
  \<^verbatim>\<open>backtrack\<close>: the loop runs \<open>i\<close> from \<open>size - 2\<close> down to \<open>0\<close>. It returns the error or
  the coordinate, the path (shrunk when a coordinate is found) and the rest of the random
  source. Inside the loop \<open>0 \<le> i\<close> holds and \<open>i\<close> is an index of the slice, so neither
  \<open>i - 1\<close> nor \<open>i + 1\<close> can overflow.
\<close>

function backtrack_loop ::
  "int \<Rightarrow> path \<Rightarrow> explored \<Rightarrow> rand_src \<Rightarrow> (failure + Coordinate) \<times> path \<times> rand_src" where
  "backtrack_loop i p explored r =
     (if i \<ge> 0 then
        (if i \<ge> int (length (coordinates p)) then (Inl PanicIndex, p, r)
         else (case pickNeighbor (coordinates p ! nat i) explored r of
                 ((nb, dir, found), r') \<Rightarrow>
                   if found then (Inr (coordinates p ! nat i), p\<lparr>size := i + 1\<rparr>, r')
                   else backtrack_loop (i - 1) p explored r'))
      else (Inl ErrNoOpening, p, r))"
  by pat_completeness auto
termination
  by (relation "measure (\<lambda>(i, p, explored, r). nat (i + 1))") auto

definition backtrack ::
  "path \<Rightarrow> explored \<Rightarrow> rand_src \<Rightarrow> (failure + Coordinate) \<times> path \<times> rand_src" where
  "backtrack p explored r = backtrack_loop (wrap (size p - 2)) p explored r"

text \<open>
  A coordinate has an unexplored opening when, according to explored memory, some
  direction has no wall and leads to a coordinate that is not in explored memory.
\<close>

definition has_opening :: "explored \<Rightarrow> Coordinate \<Rightarrow> bool" where
  "has_opening explored c =
     list_ex (\<lambda>dir. \<not> HasWall (survey_at explored c) dir \<and> explored (Neighbor c dir) = None)
       allDirections"

lemma pickNeighbor_loop_found:
  "snd (snd (pickNeighbor_loop idxs c s explored)) \<longleftrightarrow>
     (\<exists>idx \<in> set idxs. \<not> HasWall s (allDirections ! idx) \<and> explored (Neighbor c (allDirections ! idx)) = None)"
  by (induction idxs) (auto simp: Let_def)

lemma ex_nth_iff: "(\<exists>i\<in>{0..<length ds}. P (ds ! i)) \<longleftrightarrow> (\<exists>d\<in>set ds. P d)"
  by (metis atLeast0LessThan lessThan_iff in_set_conv_nth)

lemma length_allDirections: "length allDirections = 4"
  by (simp add: allDirections_def)

lemma pickNeighbor_found:
  "snd (snd (fst (pickNeighbor c explored r))) \<longleftrightarrow> has_opening explored c"
proof -
  obtain idxs r' where P: "Perm 4 r = (idxs, r')" by (cases "Perm 4 r")
  with Perm_is_perm [of 4 r] have s: "set idxs = {0..<length allDirections}"
    by (simp add: is_perm_set length_allDirections)
  have "snd (snd (fst (pickNeighbor c explored r))) \<longleftrightarrow>
      (\<exists>idx \<in> {0..<length allDirections}. \<not> HasWall (survey_at explored c) (allDirections ! idx)
          \<and> explored (Neighbor c (allDirections ! idx)) = None)"
    unfolding pickNeighbor_def P by (simp only: prod.case fst_conv pickNeighbor_loop_found s)
  also have "\<dots> \<longleftrightarrow> has_opening explored c"
    unfolding has_opening_def list_ex_iff by (rule ex_nth_iff)
  finally show ?thesis .
qed


declare backtrack_loop.simps [simp del]

lemma backtrack_loop_found:
  assumes "0 \<le> i" and "i \<le> k" and "k < int (length (coordinates p))"
    and "has_opening explored (coordinates p ! nat i)"
    and "\<forall>j. i < j \<and> j \<le> k \<longrightarrow> \<not> has_opening explored (coordinates p ! nat j)"
  shows "\<exists>r'. backtrack_loop k p explored r = (Inr (coordinates p ! nat i), p\<lparr>size := i + 1\<rparr>, r')"
  using assms
proof (induction k p explored r rule: backtrack_loop.induct)
  case (1 k p explored r)
  obtain nb dir found r' where
    pk: "pickNeighbor (coordinates p ! nat k) explored r = ((nb, dir, found), r')"
    by (metis prod.exhaust)
  have f: "found \<longleftrightarrow> has_opening explored (coordinates p ! nat k)"
    using pickNeighbor_found [of "coordinates p ! nat k" explored r] pk by simp
  have k0: "0 \<le> k" using "1.prems" by simp
  show ?case
  proof (cases "i = k")
    case True
    with f "1.prems" have found by simp
    with k0 "1.prems" pk True show ?thesis
      by (subst backtrack_loop.simps) simp
  next
    case False
    with "1.prems" have ik: "i < k" by simp
    with "1.prems" f have nf: "\<not> found" by simp
    have "\<exists>r''. backtrack_loop (k - 1) p explored r'
             = (Inr (coordinates p ! nat i), p\<lparr>size := i + 1\<rparr>, r'')"
      using "1.IH" [OF k0 _ pk [symmetric] refl refl nf] "1.prems" ik by simp
    with k0 "1.prems" pk nf show ?thesis
      by (subst backtrack_loop.simps) simp
  qed
qed

lemma backtrack_loop_none:
  assumes "k < int (length (coordinates p))"
    and "\<forall>j. 0 \<le> j \<and> j \<le> k \<longrightarrow> \<not> has_opening explored (coordinates p ! nat j)"
  shows "\<exists>r'. backtrack_loop k p explored r = (Inl ErrNoOpening, p, r')"
  using assms
proof (induction k p explored r rule: backtrack_loop.induct)
  case (1 k p explored r)
  show ?case
  proof (cases "0 \<le> k")
    case False
    then show ?thesis by (subst backtrack_loop.simps) simp
  next
    case True
    obtain nb dir found r' where
      pk: "pickNeighbor (coordinates p ! nat k) explored r = ((nb, dir, found), r')"
      by (metis prod.exhaust)
    have f: "found \<longleftrightarrow> has_opening explored (coordinates p ! nat k)"
      using pickNeighbor_found [of "coordinates p ! nat k" explored r] pk by simp
    with True "1.prems" have nf: "\<not> found" by simp
    have "\<exists>r''. backtrack_loop (k - 1) p explored r' = (Inl ErrNoOpening, p, r'')"
      using "1.IH" [OF True _ pk [symmetric] refl refl nf] "1.prems" by simp
    with True "1.prems" pk nf show ?thesis
      by (subst backtrack_loop.simps) simp
  qed
qed

text \<open>A path with a top: the size is at least one and within the slice.\<close>

definition wf_path :: "path \<Rightarrow> bool" where
  "wf_path p = (1 \<le> size p \<and> size p \<le> int (length (coordinates p)) \<and> is_int (size p))"

text \<open>
  Claim C7. On a path with a top, \<^verbatim>\<open>backtrack\<close> returns the nearest ancestor that still
  has an unexplored unwalled opening according to explored memory, that is the entry
  with the greatest index \<open>i\<close> below the top that has one, and truncates the path to
  size \<open>i + 1\<close>, so that this ancestor is the new top; it fails, leaving the path as it
  is, if no entry below the top has such an opening. Explored memory is only read: it is
  an argument of the model and not among its results. This holds whether or not the top
  itself has an opening (the solver calls \<^verbatim>\<open>backtrack\<close> only when it has none), and
  for every outcome of the random order in which \<^verbatim>\<open>pickNeighbor\<close> tries the directions.
\<close>

theorem backtrack_nearest_ancestor:
  assumes "wf_path p"
  shows
    "(0 \<le> i \<and> i < size p - 1 \<and> has_opening explored (coordinates p ! nat i) \<and>
      (\<forall>j. i < j \<and> j < size p - 1 \<longrightarrow> \<not> has_opening explored (coordinates p ! nat j))
      \<longrightarrow> fst (backtrack p explored r) = Inr (coordinates p ! nat i)
        \<and> fst (snd (backtrack p explored r)) = p\<lparr>size := i + 1\<rparr>
        \<and> top (p\<lparr>size := i + 1\<rparr>) = Inr (coordinates p ! nat i))
     \<and>
     ((\<forall>j. 0 \<le> j \<and> j < size p - 1 \<longrightarrow> \<not> has_opening explored (coordinates p ! nat j))
      \<longrightarrow> fst (backtrack p explored r) = Inl ErrNoOpening
        \<and> fst (snd (backtrack p explored r)) = p)"
proof -
  from assms have sz: "1 \<le> size p" "size p \<le> int (length (coordinates p))" "is_int (size p)"
    by (simp_all add: wf_path_def)
  then have "is_int (size p - 2)" by (simp add: is_int_def minInt_def)
  then have w: "wrap (size p - 2) = size p - 2" by (rule wrap_id)
  have k: "size p - 2 < int (length (coordinates p))" using sz by simp
  show ?thesis
  proof (intro conjI impI)
    assume h: "0 \<le> i \<and> i < size p - 1 \<and> has_opening explored (coordinates p ! nat i) \<and>
      (\<forall>j. i < j \<and> j < size p - 1 \<longrightarrow> \<not> has_opening explored (coordinates p ! nat j))"
    then have "\<exists>r'. backtrack_loop (size p - 2) p explored r
        = (Inr (coordinates p ! nat i), p\<lparr>size := i + 1\<rparr>, r')"
      using k by (intro backtrack_loop_found) auto
    then show "fst (backtrack p explored r) = Inr (coordinates p ! nat i)"
      and "fst (snd (backtrack p explored r)) = p\<lparr>size := i + 1\<rparr>"
      by (auto simp: backtrack_def w)
    have "is_int i" using h sz by (simp add: is_int_def minInt_def)
    then show "top (p\<lparr>size := i + 1\<rparr>) = Inr (coordinates p ! nat i)"
      using h sz by (simp add: top_def wrap_id)
  next
    assume h: "\<forall>j. 0 \<le> j \<and> j < size p - 1 \<longrightarrow> \<not> has_opening explored (coordinates p ! nat j)"
    then have "\<exists>r'. backtrack_loop (size p - 2) p explored r = (Inl ErrNoOpening, p, r')"
      using k by (intro backtrack_loop_none) auto
    then show "fst (backtrack p explored r) = Inl ErrNoOpening"
      and "fst (snd (backtrack p explored r)) = p"
      by (auto simp: backtrack_def w)
  qed
qed


subsection \<open>A T junction\<close>

text \<open>
  Explored memory after walking from the origin down a dead end of two cells; the
  origin has a second way out, to the East.
\<close>

definition tee :: explored where
  "tee = [\<lparr>X = 0, Y = 0\<rparr> \<mapsto> \<lparr>Top = True, Right = False, Bottom = False, Left = True\<rparr>,
          \<lparr>X = 0, Y = 1\<rparr> \<mapsto> \<lparr>Top = False, Right = True, Bottom = False, Left = True\<rparr>,
          \<lparr>X = 0, Y = 2\<rparr> \<mapsto> \<lparr>Top = False, Right = True, Bottom = True, Left = True\<rparr>]"

definition tee_path :: path where
  "tee_path = \<lparr>coordinates = [\<lparr>X = 0, Y = 0\<rparr>, \<lparr>X = 0, Y = 1\<rparr>, \<lparr>X = 0, Y = 2\<rparr>], size = 3\<rparr>"

text \<open>The source with no outcomes left.\<close>

definition no_rand :: rand_src where
  "no_rand = \<lparr>ints = [], perms = []\<rparr>"

lemmas solver_defs =
  has_opening_def survey_at_def allDirections_def HasWall_def Neighbor_def Up_def Down_def
  Coordinate_Left_def Coordinate_Right_def Survey0_def

lemma tee_openings:
  "has_opening tee \<lparr>X = 0, Y = 0\<rparr>"
  "\<not> has_opening tee \<lparr>X = 0, Y = 1\<rparr>"
  "\<not> has_opening tee \<lparr>X = 0, Y = 2\<rparr>"
  by (simp_all add: tee_def solver_defs dir_defs wrap_def)

theorem backtrack_nearest_ancestor_witness:
  "fst (backtrack tee_path tee no_rand) = Inr \<lparr>X = 0, Y = 0\<rparr> \<and>
   fst (snd (backtrack tee_path tee no_rand)) = tee_path\<lparr>size := 1\<rparr> \<and>
   top (tee_path\<lparr>size := 1\<rparr>) = Inr \<lparr>X = 0, Y = 0\<rparr> \<and>
   fst (backtrack (tee_path\<lparr>size := 1\<rparr>) tee no_rand) = Inl ErrNoOpening"
proof -
  have wf: "wf_path tee_path" "wf_path (tee_path\<lparr>size := 1\<rparr>)"
    by (simp_all add: wf_path_def tee_path_def is_int_def minInt_def maxInt_def)
  have below: "\<forall>j. (0::int) < j \<and> j < size tee_path - 1
       \<longrightarrow> \<not> has_opening tee (coordinates tee_path ! nat j)"
  proof (intro allI impI)
    fix j :: int
    assume "0 < j \<and> j < size tee_path - 1"
    then have "j = 1" by (simp add: tee_path_def)
    then show "\<not> has_opening tee (coordinates tee_path ! nat j)"
      by (simp add: tee_path_def tee_openings)
  qed
  have first: "(0::int) \<le> 0 \<and> 0 < size tee_path - 1
      \<and> has_opening tee (coordinates tee_path ! nat 0)"
    by (simp add: tee_path_def tee_openings)
  have none: "\<forall>j. 0 \<le> j \<and> j < size (tee_path\<lparr>size := 1\<rparr>) - 1
       \<longrightarrow> \<not> has_opening tee (coordinates (tee_path\<lparr>size := 1\<rparr>) ! nat j)"
    by auto
  from backtrack_nearest_ancestor [OF wf(1), of 0 tee no_rand] first below
       backtrack_nearest_ancestor [OF wf(2), of 0 tee no_rand] none
  show ?thesis by (simp add: tee_path_def)
qed

section \<open>The solver: walking back\<close>

text \<open>
  \<^verbatim>\<open>goback\<close> searches breadth-first from \<open>dst\<close> through explored memory until it meets
  \<open>src\<close>, and then walks from \<open>src\<close> along the directions it stored. The physical moves
  are requests to the server whose answers \<^verbatim>\<open>goback\<close> ignores; the model returns the
  list of the tokens it sends, in order, together with the count that the source
  returns.

  Reading the map \<^verbatim>\<open>from\<close> at a key that is not there gives \<open>0\<close>.
\<close>

definition from_at :: "(Coordinate \<rightharpoonup> int) \<Rightarrow> Coordinate \<Rightarrow> int" where
  "from_at fromd c = (case fromd c of None \<Rightarrow> 0 | Some d \<Rightarrow> d)"

text \<open>
  The walking loop of the first revision of the solver:
  \<^verbatim>\<open>for c := src; c != dst; c.Neighbor(from[c]) { ret += 1; Move(d2s(from[c])) }\<close>.
  Its post statement computes the neighbour and drops it, so \<open>c\<close> stays what it is.
  The loop may run forever: \<open>None\<close> is the run that does not return.
\<close>

partial_function (option) walk_first ::
  "Coordinate \<Rightarrow> Coordinate \<Rightarrow> (Coordinate \<rightharpoonup> int) \<Rightarrow> int \<Rightarrow> string list \<Rightarrow> (int \<times> string list) option" where
  "walk_first c dst fromd ret moves =
     (if c \<noteq> dst
      then walk_first c dst fromd (wrap (ret + 1)) (moves @ [d2s (from_at fromd c)])
      else Some (ret, moves))"

text \<open>
  The walking loop of the latest revision:
  \<^verbatim>\<open>for c := src; c != dst; c = c.Neighbor(from[c]) { ret += 1; Move(d2s[from[c]]) }\<close>.
\<close>

partial_function (option) walk ::
  "Coordinate \<Rightarrow> Coordinate \<Rightarrow> (Coordinate \<rightharpoonup> int) \<Rightarrow> int \<Rightarrow> string list \<Rightarrow> (int \<times> string list) option" where
  "walk c dst fromd ret moves =
     (if c \<noteq> dst
      then walk (Neighbor c (from_at fromd c)) dst fromd (wrap (ret + 1)) (moves @ [d2s (from_at fromd c)])
      else Some (ret, moves))"


lemma walk_first_stuck_aux:
  assumes "walk_first c dst fromd ret moves = Some y"
  shows "c = dst"
proof (rule walk_first.raw_induct [where P = "\<lambda>c dst fromd ret moves y. c = dst"])
  show "walk_first c dst fromd ret moves = Some y" by (rule assms)
qed (auto split: if_splits)

lemma walk_first_stuck: "c \<noteq> dst \<Longrightarrow> walk_first c dst fromd ret moves = None"
  using walk_first_stuck_aux [of c dst fromd ret moves] by (cases "walk_first c dst fromd ret moves") auto


text \<open>
  The state of the search: the queue (a slice as long as explored memory has entries),
  the number of its cells in use, the map \<^verbatim>\<open>from\<close> and the flag \<^verbatim>\<open>found\<close>.
\<close>

record bfs =
  queue :: "Coordinate list"
  qsize :: int
  fromd :: "Coordinate \<rightharpoonup> int"
  found :: bool

text \<open>
  The inner loop over the directions at the frontier cell \<open>c\<close>, with its three
  \<^verbatim>\<open>continue\<close>s and its \<^verbatim>\<open>break\<close>. Writing \<^verbatim>\<open>queue[size]\<close> beyond the slice panics.
\<close>

fun search_dirs ::
  "int list \<Rightarrow> Coordinate \<Rightarrow> Survey \<Rightarrow> Coordinate \<Rightarrow> explored \<Rightarrow> bfs \<Rightarrow> failure + bfs" where
  "search_dirs [] c survey src explored st = Inr st"
| "search_dirs (dir # dirs) c survey src explored st =
     (if HasWall survey dir then search_dirs dirs c survey src explored st
      else if explored (Neighbor c dir) = None then search_dirs dirs c survey src explored st
      else if fromd st (Neighbor c dir) \<noteq> None then search_dirs dirs c survey src explored st
      else if qsize st < 0 \<or> qsize st \<ge> int (length (queue st)) then Inl PanicIndex
      else if Neighbor c dir = src
        then Inr (st\<lparr>queue := (queue st)[nat (qsize st) := Neighbor c dir],
                      qsize := qsize st + 1,
                      fromd := (fromd st)(Neighbor c dir \<mapsto> ReverseDirection dir),
                      found := True\<rparr>)
      else search_dirs dirs c survey src explored
             (st\<lparr>queue := (queue st)[nat (qsize st) := Neighbor c dir],
                  qsize := qsize st + 1,
                  fromd := (fromd st)(Neighbor c dir \<mapsto> ReverseDirection dir)\<rparr>))"

lemma search_dirs_length:
  "search_dirs dirs c survey src explored st = Inr st' \<Longrightarrow> length (queue st') = length (queue st)"
  by (induction dirs arbitrary: st) (auto split: if_splits)

text \<open>The outer loop \<^verbatim>\<open>for i, size := 0, 1; i < size && !found; i += 1\<close>.\<close>

function search_loop :: "int \<Rightarrow> Coordinate \<Rightarrow> explored \<Rightarrow> bfs \<Rightarrow> failure + bfs" where
  "search_loop i src explored st =
     (if i < qsize st \<and> \<not> found st then
        (if i < 0 \<or> i \<ge> int (length (queue st)) then Inl PanicIndex
         else (case search_dirs allDirections (queue st ! nat i)
                      (survey_at explored (queue st ! nat i)) src explored st of
                 Inl e \<Rightarrow> Inl e
               | Inr st' \<Rightarrow> search_loop (i + 1) src explored st'))
      else Inr st)"
  by pat_completeness auto
termination
  by (relation "measure (\<lambda>(i, src, explored, st). length (queue st) - nat i)")
     (auto dest: search_dirs_length)

declare search_loop.simps [simp del]

text \<open>
  The search as both revisions run it, from the allocation of the queue to the panic
  "goback doesn't even find a way back". The first revision's \<^verbatim>\<open>getDirections()\<close> and
  \<^verbatim>\<open>reverseDirection\<close> are the latest revision's \<^verbatim>\<open>allDirections\<close> and
  \<^verbatim>\<open>ReverseDirection\<close>.
\<close>

definition search :: "Coordinate \<Rightarrow> Coordinate \<Rightarrow> explored \<Rightarrow> failure + bfs" where
  "search src dst explored =
     (if card (dom explored) = 0 then Inl PanicIndex
      else (case search_loop 0 src explored
                   \<lparr>queue = (replicate (card (dom explored)) \<lparr>X = 0, Y = 0\<rparr>)[0 := dst],
                    qsize = 1, fromd = [dst \<mapsto> 0], found = False\<rparr> of
              Inl e \<Rightarrow> Inl e
            | Inr st \<Rightarrow> if \<not> found st then Inl PanicNoWayBack else Inr st))"

text \<open>The latest revision.\<close>

definition goback ::
  "Coordinate \<Rightarrow> Coordinate \<Rightarrow> explored \<Rightarrow> (failure + int \<times> string list) option" where
  "goback src dst explored =
     (case search src dst explored of
        Inl e \<Rightarrow> Some (Inl e)
      | Inr st \<Rightarrow> map_option Inr (walk src dst (fromd st) 0 []))"

text \<open>The first revision.\<close>

definition goback_first ::
  "Coordinate \<Rightarrow> Coordinate \<Rightarrow> explored \<Rightarrow> (failure + int \<times> string list) option" where
  "goback_first src dst explored =
     (case search src dst explored of
        Inl e \<Rightarrow> Some (Inl e)
      | Inr st \<Rightarrow> map_option Inr (walk_first src dst (fromd st) 0 []))"

subsection \<open>Two explored cells\<close>

text \<open>Explored memory after one step down from the origin.\<close>

definition pair :: explored where
  "pair = [\<lparr>X = 0, Y = 0\<rparr> \<mapsto> \<lparr>Top = True, Right = True, Bottom = False, Left = True\<rparr>,
           \<lparr>X = 0, Y = 1\<rparr> \<mapsto> \<lparr>Top = False, Right = True, Bottom = True, Left = True\<rparr>]"

lemma search_pair:
  "search \<lparr>X = 0, Y = 1\<rparr> \<lparr>X = 0, Y = 0\<rparr> pair =
     Inr \<lparr>queue = [\<lparr>X = 0, Y = 0\<rparr>, \<lparr>X = 0, Y = 1\<rparr>], qsize = 2,
          fromd = [\<lparr>X = 0, Y = 0\<rparr> \<mapsto> 0, \<lparr>X = 0, Y = 1\<rparr> \<mapsto> N], found = True\<rparr>"
  by (simp add: search_def pair_def search_loop.simps allDirections_def survey_at_def
      HasWall_def Neighbor_def Up_def Down_def Coordinate_Left_def Coordinate_Right_def
      ReverseDirection_def dir_defs wrap_def)

text \<open>
  Claim C8. From \<open>src\<close> the routine is to follow the stored directions, one physical
  move per step, until \<open>dst\<close> is reached. With the occupant one cell below the target,
  both revisions find \<open>src\<close>; the latest one sends the single move "up" and returns, the
  first one never leaves \<open>src\<close> and sends "up" for ever.
\<close>

theorem goback_first_never_arrives:
  "search \<lparr>X = 0, Y = 1\<rparr> \<lparr>X = 0, Y = 0\<rparr> pair =
     Inr \<lparr>queue = [\<lparr>X = 0, Y = 0\<rparr>, \<lparr>X = 0, Y = 1\<rparr>], qsize = 2,
          fromd = [\<lparr>X = 0, Y = 0\<rparr> \<mapsto> 0, \<lparr>X = 0, Y = 1\<rparr> \<mapsto> N], found = True\<rparr> \<and>
   goback \<lparr>X = 0, Y = 1\<rparr> \<lparr>X = 0, Y = 0\<rparr> pair = Some (Inr (1, [''up''])) \<and>
   goback_first \<lparr>X = 0, Y = 1\<rparr> \<lparr>X = 0, Y = 0\<rparr> pair = None"
  by (simp add: goback_def goback_first_def search_pair walk.simps walk_first_stuck
      from_at_def Neighbor_def Up_def d2s_def dir_defs wrap_def)

text \<open>Whenever its search succeeds with \<open>src \<noteq> dst\<close>, the first revision does not return.\<close>

lemma goback_first_diverges:
  "src \<noteq> dst \<Longrightarrow> search src dst explored = Inr st \<Longrightarrow> goback_first src dst explored = None"
  by (simp add: goback_first_def walk_first_stuck)

section \<open>The maze builder\<close>

subsection \<open>The empty maze and its boundary\<close>

definition cutLimit :: int where
  "cutLimit = 3"

text \<open>Go's integer division truncates towards zero.\<close>

definition quo :: "int \<Rightarrow> int \<Rightarrow> int" where
  "quo a b = (if (a < 0) = (b < 0) then \<bar>a\<bar> div \<bar>b\<bar> else - (\<bar>a\<bar> div \<bar>b\<bar>))"

text \<open>
  \<^verbatim>\<open>emptyMaze\<close> reads the two sizes from the configuration; they are arguments here.
  \<^verbatim>\<open>make\<close> panics (\<open>None\<close>) on a negative length and on a length that the
  runtime cannot allocate. That limit depends on the platform and is far below \<open>maxSide\<close>;
  the model lets \<^verbatim>\<open>make\<close> panic above \<open>maxSide\<close> only.
\<close>

definition maxSide :: int where
  "maxSide = 2 ^ 62"

definition emptyMaze :: "int \<Rightarrow> int \<Rightarrow> Maze option" where
  "emptyMaze xSize ySize =
     (if ySize < 0 \<or> maxSide < ySize \<or> (0 < ySize \<and> (xSize < 0 \<or> maxSide < xSize)) then None
      else Some \<lparr>rooms = replicate (nat ySize) (replicate (nat xSize) Room0),
                 start = \<lparr>X = 0, Y = 0\<rparr>, endc = \<lparr>X = 0, Y = 0\<rparr>,
                 icarus = \<lparr>X = 0, Y = 0\<rparr>, StepsTaken = 0\<rparr>)"

text \<open>
  \<^verbatim>\<open>addBoundary\<close>: one loop over the columns and one over the rows. The counters run
  below the width and the height, and \<^verbatim>\<open>Height() - 1\<close> is at least \<open>-1\<close>: nothing here
  can overflow.
\<close>

definition addBoundary :: "Maze \<Rightarrow> Maze" where
  "addBoundary m =
     (let m1 = fold (\<lambda>x m. updRoom (updRoom m x 0 (AddWall N)) x (Height m - 1) (AddWall S))
                 (map int [0..<nat (Width m)]) m
      in fold (\<lambda>y m. updRoom (updRoom m 0 y (AddWall W)) (Width m - 1) y (AddWall E))
           (map int [0..<nat (Height m)]) m1)"

subsection \<open>Routes\<close>

text \<open>
  The loop of \<^verbatim>\<open>findNaiveRoute\<close>. The drawn direction is overridden when the two cells
  share a column, and then when they share a row. A function that may not return, or
  that panics, has the result \<open>None\<close>.
\<close>

partial_function (option) naive_loop ::
  "Coordinate \<Rightarrow> Coordinate \<Rightarrow> Coordinate list \<Rightarrow> rand_src \<Rightarrow> (Coordinate list \<times> rand_src) option" where
  "naive_loop c dst ret rs =
     (if c \<noteq> dst then
        do {
          (k, rs1) \<leftarrow> Intn 2 rs;
          let dir = (if Y c = Y dst then 1 else if X c = X dst then 0 else k);
          if dir = 0 then
            (if Y c < Y dst then naive_loop (Down c) dst (ret @ [c]) rs1
             else naive_loop (Up c) dst (ret @ [c]) rs1)
          else
            (if X c < X dst then naive_loop (Coordinate_Right c) dst (ret @ [c]) rs1
             else naive_loop (Coordinate_Left c) dst (ret @ [c]) rs1)
        }
      else Some (ret @ [dst], rs))"

declare naive_loop.simps [code]

definition findNaiveRoute ::
  "Coordinate \<Rightarrow> Coordinate \<Rightarrow> rand_src \<Rightarrow> (Coordinate list \<times> rand_src) option" where
  "findNaiveRoute src dst rs = naive_loop src dst [] rs"

record rect =
  rX :: int
  rY :: int
  rW :: int
  rH :: int

definition rect0 :: rect where
  "rect0 = \<lparr>rX = 0, rY = 0, rW = 0, rH = 0\<rparr>"

definition rect_contains :: "rect \<Rightarrow> Coordinate \<Rightarrow> bool" where
  "rect_contains r c =
     (rX r \<le> X c \<and> X c < wrap (rX r + rW r) \<and> rY r \<le> Y c \<and> Y c < wrap (rY r + rH r))"

definition toRect :: "Maze \<Rightarrow> rect" where
  "toRect m = \<lparr>rX = 0, rY = 0, rW = Width m, rH = Height m\<rparr>"

text \<open>
  What a cut returns: the piece with \<open>src\<close>, the connecting coordinate in it, the piece
  with \<open>dst\<close>, the connecting coordinate in it, and whether the cut was possible.
\<close>

type_synonym cut_result = "rect \<times> Coordinate \<times> rect \<times> Coordinate \<times> bool"

definition no_cut :: cut_result where
  "no_cut = (rect0, \<lparr>X = 0, Y = 0\<rparr>, rect0, \<lparr>X = 0, Y = 0\<rparr>, False)"

definition cuth ::
  "rect \<Rightarrow> Coordinate \<Rightarrow> Coordinate \<Rightarrow> rand_src \<Rightarrow> (cut_result \<times> rand_src) option" where
  "cuth r src dst rs =
     (if Y src = Y dst \<or> rH r \<le> cutLimit then Some (no_cut, rs)
      else do {
        let cy = wrap (quo (wrap (Y src + Y dst)) 2 + 1);
        (k, rs1) \<leftarrow> Intn (rW r) rs;
        (cx, rs2) \<leftarrow>
          (if wrap (k + rX r) = X src \<or> wrap (k + rX r) = X dst
           then do { (k', rs') \<leftarrow> Intn (rW r) rs1; Some (wrap (k' + rX r), rs') }
           else Some (wrap (k + rX r), rs1));
        let r1 = \<lparr>rX = rX r, rY = rY r, rW = rW r, rH = wrap (cy - rY r)\<rparr>;
        let r2 = \<lparr>rX = rX r, rY = cy, rW = rW r, rH = wrap (rH r - rH r1)\<rparr>;
        if rect_contains r1 src
        then Some ((r1, NewCoordinate cx (wrap (cy - 1)), r2, NewCoordinate cx cy, True), rs2)
        else Some ((r2, NewCoordinate cx cy, r1, NewCoordinate cx (wrap (cy - 1)), True), rs2)
      })"

definition cutv ::
  "rect \<Rightarrow> Coordinate \<Rightarrow> Coordinate \<Rightarrow> rand_src \<Rightarrow> (cut_result \<times> rand_src) option" where
  "cutv r src dst rs =
     (if X src = X dst \<or> rW r \<le> cutLimit then Some (no_cut, rs)
      else do {
        let cx = wrap (quo (wrap (X src + X dst)) 2 + 1);
        (k, rs1) \<leftarrow> Intn (rH r) rs;
        (cy, rs2) \<leftarrow>
          (if wrap (k + rY r) = Y src \<or> wrap (k + rY r) = Y dst
           then do { (k', rs') \<leftarrow> Intn (rH r) rs1; Some (wrap (k' + rY r), rs') }
           else Some (wrap (k + rY r), rs1));
        let r1 = \<lparr>rX = rX r, rY = rY r, rW = wrap (cx - rX r), rH = rH r\<rparr>;
        let r2 = \<lparr>rX = cx, rY = rY r, rW = wrap (rW r - rW r1), rH = rH r\<rparr>;
        if rect_contains r1 src
        then Some ((r1, NewCoordinate (wrap (cx - 1)) cy, r2, NewCoordinate cx cy, True), rs2)
        else Some ((r2, NewCoordinate cx cy, r1, NewCoordinate (wrap (cx - 1)) cy, True), rs2)
      })"

text \<open>\<^verbatim>\<open>cut\<close> runs both cuts, the horizontal one first, and then chooses.\<close>

definition cut ::
  "rect \<Rightarrow> Coordinate \<Rightarrow> Coordinate \<Rightarrow> rand_src \<Rightarrow> (cut_result \<times> rand_src) option" where
  "cut r src dst rs =
     do {
       (h, rs1) \<leftarrow> cuth r src dst rs;
       (v, rs2) \<leftarrow> cutv r src dst rs1;
       if \<not> snd (snd (snd (snd h))) then Some (v, rs2)
       else if \<not> snd (snd (snd (snd v))) then Some (h, rs2)
       else if rW r > rH r then Some (v, rs2)
       else Some (h, rs2)
     }"

partial_function (option) findRoute ::
  "rect \<Rightarrow> Coordinate \<Rightarrow> Coordinate \<Rightarrow> rand_src \<Rightarrow> (Coordinate list \<times> rand_src) option" where
  "findRoute r src dst rs =
     do {
       ((rsrc, csrc, rdst, cdst, ok), rs1) \<leftarrow> cut r src dst rs;
       if \<not> ok then findNaiveRoute src dst rs1
       else do {
         (p1, rs2) \<leftarrow> findRoute rsrc src csrc rs1;
         (p2, rs3) \<leftarrow> findRoute rdst cdst dst rs2;
         Some (p1 @ p2, rs3)
       }
     }"

declare findRoute.simps [code]

subsection \<open>Walls\<close>

definition addWall :: "Maze \<Rightarrow> Coordinate \<Rightarrow> int \<Rightarrow> Maze" where
  "addWall m c dir =
     (let nb = Neighbor c dir in
      if Maze_contains m nb
      then updRoom (updRoom m (X c) (Y c) (AddWall dir)) (X nb) (Y nb)
             (AddWall (ReverseDirection dir))
      else m)"

definition sealRoom :: "Maze \<Rightarrow> Coordinate \<Rightarrow> Maze" where
  "sealRoom m c = addWall (addWall (addWall (addWall m c N) c S) c E) c W"

definition removeWallBetween :: "Maze \<Rightarrow> Coordinate \<Rightarrow> Coordinate \<Rightarrow> Maze" where
  "removeWallBetween m c1 c2 =
     updRoom (updRoom m (X c1) (Y c1) (RmWall (GetDir c1 c2))) (X c2) (Y c2)
       (RmWall (GetDir c2 c1))"

text \<open>
  The second loop of \<^verbatim>\<open>paveRoute\<close>: for every index \<open>i > 0\<close>, in order, the wall
  between \<^verbatim>\<open>route[i]\<close> and \<^verbatim>\<open>route[i-1]\<close> is removed.
\<close>

fun pave_open :: "Maze \<Rightarrow> Coordinate list \<Rightarrow> Maze" where
  "pave_open m (a # b # cs) = pave_open (removeWallBetween m b a) (b # cs)"
| "pave_open m cs = m"

definition paveRoute :: "Maze \<Rightarrow> Coordinate list \<Rightarrow> Maze" where
  "paveRoute m route = pave_open (fold (\<lambda>c m. sealRoom m c) route m) route"

subsection \<open>Flood fill\<close>

text \<open>
  A \<^verbatim>\<open>for ... range\<close> loop whose body may fail to return: the state is threaded
  through the elements in order.
\<close>

fun foreach :: "'a list \<Rightarrow> ('a \<Rightarrow> 's \<Rightarrow> 's option) \<Rightarrow> 's \<Rightarrow> 's option" where
  "foreach [] body s = Some s"
| "foreach (x # xs) body s = Option.bind (body x s) (foreach xs body)"

lemma foreach_mono [partial_function_mono]:
  assumes "\<And>x s. mono_option (\<lambda>g. B g x s)"
  shows "mono_option (\<lambda>g. foreach xs (B g) s)"
proof (induction xs arbitrary: s)
  case Nil
  show ?case by (simp add: option.const_mono)
next
  case (Cons x xs)
  show ?case
    unfolding foreach.simps by (rule bind_mono [OF assms]) (rule Cons.IH)
qed

text \<open>
  The state of the flood fill: the maze and the map \<^verbatim>\<open>explored\<close>. The map holds
  \<^verbatim>\<open>true\<close> for the coordinates stored in it and reads as \<^verbatim>\<open>false\<close> elsewhere: it is
  the set of the coordinates stored.
\<close>

type_synonym fill = "Maze \<times> Coordinate set"

partial_function (option) floodfill :: "Coordinate \<Rightarrow> Coordinate \<Rightarrow> fill \<Rightarrow> fill option" where
  "floodfill c from s =
     foreach (Neighbors c)
       (\<lambda>nb s. if Maze_contains (fst s) nb \<and> nb \<notin> snd s then floodfill nb c s else Some s)
       (removeWallBetween (sealRoom (fst s) c) c from, insert c (snd s))"

declare floodfill.simps [code]

text \<open>\<^verbatim>\<open>rand.Perm\<close> allocates its result with \<^verbatim>\<open>make\<close> and panics on a negative
  length.\<close>

definition Perm_int :: "int \<Rightarrow> rand_src \<Rightarrow> (nat list \<times> rand_src) option" where
  "Perm_int n rs = (if n < 0 then None else Some (Perm (nat n) rs))"

definition buildMaze ::
  "Maze \<Rightarrow> Coordinate \<Rightarrow> Coordinate \<Rightarrow> rand_src \<Rightarrow> (Maze \<times> rand_src) option" where
  "buildMaze m src dst rs =
     do {
       (route, rs1) \<leftarrow> findRoute (toRect m) src dst rs;
       (order, rs2) \<leftarrow> Perm_int (int (length route) - 1) rs1;
       s \<leftarrow> foreach order
              (\<lambda>idx s.
                 if idx \<ge> length route then None
                 else foreach (Neighbors (route ! idx))
                        (\<lambda>nb s. if Maze_contains (fst s) nb \<and> nb \<notin> snd s
                                then floodfill nb (route ! idx) s else Some s)
                        s)
              (paveRoute m route, set route);
       Some (fst s, rs2)
     }"

subsection \<open>Creating a maze\<close>

text \<open>
  The loop of \<^verbatim>\<open>createMaze\<close> that draws the treasure again while it falls on the
  start. It runs forever on a grid of one room, and for a random source that keeps
  answering the start.
\<close>

partial_function (option) redraw ::
  "Maze \<Rightarrow> int \<Rightarrow> int \<Rightarrow> int \<Rightarrow> int \<Rightarrow> rand_src \<Rightarrow> ((int \<times> int) \<times> rand_src) option" where
  "redraw m sx sy dx dy rs =
     (if dx = sx \<and> dy = sy then
        do {
          (dx', rs1) \<leftarrow> Intn (Width m) rs;
          (dy', rs2) \<leftarrow> Intn (Height m) rs1;
          redraw m sx sy dx' dy' rs2
        }
      else Some ((dx, dy), rs))"

declare redraw.simps [code]

text \<open>
  \<^verbatim>\<open>createMaze\<close>. Its first call \<^verbatim>\<open>m.Width()\<close> panics on a maze with no row, and
  \<^verbatim>\<open>rand.Intn\<close> on a maze with no column.
\<close>

definition createMaze :: "int \<Rightarrow> int \<Rightarrow> rand_src \<Rightarrow> (Maze \<times> rand_src) option" where
  "createMaze xSize ySize rs =
     do {
       m \<leftarrow> emptyMaze xSize ySize;
       if rooms m = [] then None
       else do {
         (sx, rs1) \<leftarrow> Intn (Width m) rs;
         (sy, rs2) \<leftarrow> Intn (Height m) rs1;
         (dx, rs3) \<leftarrow> Intn (Width m) rs2;
         (dy, rs4) \<leftarrow> Intn (Height m) rs3;
         ((dx, dy), rs5) \<leftarrow> redraw m sx sy dx dy rs4;
         let m1 = snd (SetStartPoint m sx sy);
         let m2 = snd (SetTreasure m1 dx dy);
         let m3 = addBoundary m2;
         buildMaze m3 (NewCoordinate sx sy) (NewCoordinate dx dy) rs5
       }
     }"

subsection \<open>Reading a maze\<close>

text \<open>The room at a coordinate of the grid.\<close>

definition room :: "Maze \<Rightarrow> Coordinate \<Rightarrow> Room" where
  "room m c = rooms m ! nat (Y c) ! nat (X c)"

text \<open>The coordinates of the grid, row by row.\<close>

definition cells :: "Maze \<Rightarrow> Coordinate list" where
  "cells m =
     concat (map (\<lambda>y. map (\<lambda>x. \<lparr>X = int x, Y = int y\<rparr>) [0..<nat (Width m)])
               [0..<nat (Height m)])"

text \<open>
  The open adjacent pairs of a maze, each listed once, from its left or upper room:
  two rooms next to each other in the grid with no wall between them on either side.
\<close>

definition open_pairs :: "Maze \<Rightarrow> (Coordinate \<times> Coordinate) list" where
  "open_pairs m =
     concat (map (\<lambda>a. map (\<lambda>d. (a, Neighbor a d))
                   (filter (\<lambda>d. Maze_contains m (Neighbor a d)
                                \<and> \<not> HasWall (Walls (room m a)) d
                                \<and> \<not> HasWall (Walls (room m (Neighbor a d))) (ReverseDirection d))
                      [E, S]))
               (cells m))"

subsection \<open>The cut step\<close>

lemma Intn_range: "Intn n rs = Some (k, rs') \<Longrightarrow> 0 \<le> k \<and> k < n"
  by (auto simp: Intn_def split: if_splits list.splits)

text \<open>The cut line of a cut step: one past the midpoint of the two coordinates.\<close>

definition cut_line :: "int \<Rightarrow> int \<Rightarrow> int" where
  "cut_line s d = wrap (quo (wrap (s + d)) 2 + 1)"

text \<open>
  The crossing of a cut step along its cut line, in a region that starts at \<open>lo\<close>, from
  the first draw \<open>k1\<close> and the second draw \<open>k2\<close>: the first draw, unless it falls on the
  coordinate of \<open>src\<close> or of \<open>dst\<close>, and then the second, whatever it is.
\<close>

definition crossing :: "int \<Rightarrow> int \<Rightarrow> int \<Rightarrow> int \<Rightarrow> int \<Rightarrow> int" where
  "crossing lo s d k1 k2 =
     (if wrap (k1 + lo) = s \<or> wrap (k1 + lo) = d then wrap (k2 + lo) else wrap (k1 + lo))"

lemma crossing_range:
  assumes "is_int lo" and "is_int (lo + n)" and "0 \<le> k1 \<and> k1 < n" and "0 \<le> k2 \<and> k2 < n"
  shows "lo \<le> crossing lo s d k1 k2 \<and> crossing lo s d k1 k2 < lo + n"
proof -
  have "is_int (k + lo)" if "0 \<le> k \<and> k < n" for k
    using assms(1,2) that by (simp add: is_int_def)
  with assms(3,4) have "wrap (k1 + lo) = k1 + lo" "wrap (k2 + lo) = k2 + lo"
    by (simp_all add: wrap_id)
  with assms(3,4) show ?thesis by (simp add: crossing_def)
qed

text \<open>
  Claim C9 (as amended). In every cut step, horizontal or vertical, the cut line
  itself is not drawn: it lies one past the midpoint of the coordinates of \<open>src\<close> and
  \<open>dst\<close> across the cut. What is drawn at random, within the region's extent along the
  cut line, is the position where the route crosses the line (the column of the two
  connecting coordinates of a horizontal cut, the row of those of a vertical cut); if
  the drawn position coincides with the coordinate of \<open>src\<close> or of \<open>dst\<close> on that axis
  it is drawn again exactly once, and the second draw stands.

  \<open>k1\<close> and \<open>k2\<close> are the next two outcomes of \<^verbatim>\<open>rand.Intn\<close> for the width of the
  region, \<open>j1\<close> and \<open>j2\<close> for its height.
\<close>

theorem crossing_redrawn_once:
  assumes "Intn (rW r) rs = Some (k1, rs1)" and "Intn (rW r) rs1 = Some (k2, rs2)"
    and "Intn (rH r) rs = Some (j1, rt1)" and "Intn (rH r) rt1 = Some (j2, rt2)"
  shows
    "(Y src \<noteq> Y dst \<and> cutLimit < rH r \<longrightarrow>
       (\<exists>ra ca rb cb.
          cuth r src dst rs =
            Some ((ra, ca, rb, cb, True),
                  if wrap (k1 + rX r) = X src \<or> wrap (k1 + rX r) = X dst then rs2 else rs1)
          \<and> X ca = crossing (rX r) (X src) (X dst) k1 k2 \<and> X cb = X ca
          \<and> {Y ca, Y cb} = {wrap (cut_line (Y src) (Y dst) - 1), cut_line (Y src) (Y dst)}
          \<and> {rY ra, rY rb} = {rY r, cut_line (Y src) (Y dst)}
          \<and> (is_int (rX r) \<and> is_int (rX r + rW r) \<longrightarrow> rX r \<le> X ca \<and> X ca < rX r + rW r)))
     \<and>
     (X src \<noteq> X dst \<and> cutLimit < rW r \<longrightarrow>
       (\<exists>ra ca rb cb.
          cutv r src dst rs =
            Some ((ra, ca, rb, cb, True),
                  if wrap (j1 + rY r) = Y src \<or> wrap (j1 + rY r) = Y dst then rt2 else rt1)
          \<and> Y ca = crossing (rY r) (Y src) (Y dst) j1 j2 \<and> Y cb = Y ca
          \<and> {X ca, X cb} = {wrap (cut_line (X src) (X dst) - 1), cut_line (X src) (X dst)}
          \<and> {rX ra, rX rb} = {rX r, cut_line (X src) (X dst)}
          \<and> (is_int (rY r) \<and> is_int (rY r + rH r) \<longrightarrow> rY r \<le> Y ca \<and> Y ca < rY r + rH r)))"
proof -
  have k: "0 \<le> k1 \<and> k1 < rW r" "0 \<le> k2 \<and> k2 < rW r"
    and j: "0 \<le> j1 \<and> j1 < rH r" "0 \<le> j2 \<and> j2 < rH r"
    using assms by (auto dest: Intn_range)
  have xr: "is_int (rX r) \<and> is_int (rX r + rW r) \<longrightarrow>
      rX r \<le> crossing (rX r) (X src) (X dst) k1 k2
      \<and> crossing (rX r) (X src) (X dst) k1 k2 < rX r + rW r"
    using crossing_range [OF _ _ k] by blast
  have yr: "is_int (rY r) \<and> is_int (rY r + rH r) \<longrightarrow>
      rY r \<le> crossing (rY r) (Y src) (Y dst) j1 j2
      \<and> crossing (rY r) (Y src) (Y dst) j1 j2 < rY r + rH r"
    using crossing_range [OF _ _ j] by blast
  show ?thesis
  proof (intro conjI impI)
    assume "Y src \<noteq> Y dst \<and> cutLimit < rH r"
    then show "\<exists>ra ca rb cb.
          cuth r src dst rs =
            Some ((ra, ca, rb, cb, True),
                  if wrap (k1 + rX r) = X src \<or> wrap (k1 + rX r) = X dst then rs2 else rs1)
          \<and> X ca = crossing (rX r) (X src) (X dst) k1 k2 \<and> X cb = X ca
          \<and> {Y ca, Y cb} = {wrap (cut_line (Y src) (Y dst) - 1), cut_line (Y src) (Y dst)}
          \<and> {rY ra, rY rb} = {rY r, cut_line (Y src) (Y dst)}
          \<and> (is_int (rX r) \<and> is_int (rX r + rW r) \<longrightarrow> rX r \<le> X ca \<and> X ca < rX r + rW r)"
      using assms(1,2) xr
      by (auto simp: cuth_def Let_def NewCoordinate_def cut_line_def crossing_def)
  next
    assume "X src \<noteq> X dst \<and> cutLimit < rW r"
    then show "\<exists>ra ca rb cb.
          cutv r src dst rs =
            Some ((ra, ca, rb, cb, True),
                  if wrap (j1 + rY r) = Y src \<or> wrap (j1 + rY r) = Y dst then rt2 else rt1)
          \<and> Y ca = crossing (rY r) (Y src) (Y dst) j1 j2 \<and> Y cb = Y ca
          \<and> {X ca, X cb} = {wrap (cut_line (X src) (X dst) - 1), cut_line (X src) (X dst)}
          \<and> {rX ra, rX rb} = {rX r, cut_line (X src) (X dst)}
          \<and> (is_int (rY r) \<and> is_int (rY r + rH r) \<longrightarrow> rY r \<le> Y ca \<and> Y ca < rY r + rH r)"
      using assms(3,4) yr
      by (auto simp: cutv_def Let_def NewCoordinate_def cut_line_def crossing_def)
  qed
qed

text \<open>
  A region of five by five rooms with \<open>src\<close> and \<open>dst\<close> in opposite corners, and a
  source whose first draw falls on the column of \<open>src\<close>.
\<close>

definition five :: rect where
  "five = \<lparr>rX = 0, rY = 0, rW = 5, rH = 5\<rparr>"

definition draws :: rand_src where
  "draws = \<lparr>ints = [0, 2, 4], perms = []\<rparr>"

theorem crossing_redrawn_once_witness:
  "cuth five \<lparr>X = 0, Y = 0\<rparr> \<lparr>X = 4, Y = 4\<rparr> draws =
     Some ((\<lparr>rX = 0, rY = 0, rW = 5, rH = 3\<rparr>, \<lparr>X = 2, Y = 2\<rparr>,
            \<lparr>rX = 0, rY = 3, rW = 5, rH = 2\<rparr>, \<lparr>X = 2, Y = 3\<rparr>, True),
           \<lparr>ints = [4], perms = []\<rparr>) \<and>
   crossing 0 0 4 0 2 = 2 \<and> cut_line 0 4 = 3 \<and>
   cutv five \<lparr>X = 0, Y = 0\<rparr> \<lparr>X = 4, Y = 4\<rparr> draws =
     Some ((\<lparr>rX = 0, rY = 0, rW = 3, rH = 5\<rparr>, \<lparr>X = 2, Y = 2\<rparr>,
            \<lparr>rX = 3, rY = 0, rW = 2, rH = 5\<rparr>, \<lparr>X = 3, Y = 2\<rparr>, True),
           \<lparr>ints = [4], perms = []\<rparr>)"
proof -
  have d: "Intn (rW five) draws = Some (0, \<lparr>ints = [2, 4], perms = []\<rparr>)"
    "Intn (rW five) \<lparr>ints = [2, 4], perms = []\<rparr> = Some (2, \<lparr>ints = [4], perms = []\<rparr>)"
    "Intn (rH five) draws = Some (0, \<lparr>ints = [2, 4], perms = []\<rparr>)"
    "Intn (rH five) \<lparr>ints = [2, 4], perms = []\<rparr> = Some (2, \<lparr>ints = [4], perms = []\<rparr>)"
    by (simp_all add: Intn_def five_def draws_def)
  from crossing_redrawn_once [OF d, of "\<lparr>X = 0, Y = 0\<rparr>" "\<lparr>X = 4, Y = 4\<rparr>"]
  show ?thesis
    by (simp add: five_def draws_def cuth_def cutv_def cutLimit_def Intn_def Let_def
        NewCoordinate_def rect_contains_def crossing_def cut_line_def quo_def wrap_def)
qed

text \<open>
  The claim as stated has the cut line drawn at random within the region. In the region
  above the horizontal cut line is row \<open>3\<close> whatever the random source holds: the upper
  piece has three rows and the lower one starts at row \<open>3\<close>.
\<close>

theorem cut_line_is_not_drawn:
  "\<forall>rs. map_option (\<lambda>((ra, ca, rb, cb, ok), rs'). (rY ra, rH ra, rY rb, rH rb, ok))
          (cuth five \<lparr>X = 0, Y = 0\<rparr> \<lparr>X = 4, Y = 4\<rparr> rs)
        = Some (0, 3, 3, 2, True)"
  by (auto simp: five_def cuth_def cutLimit_def Intn_def Let_def NewCoordinate_def
      rect_contains_def quo_def wrap_def split: list.splits)

subsection \<open>A grid of one row\<close>

text \<open>
  The random source that puts the start at \<open>(0, 0)\<close> and the treasure at \<open>(1, 0)\<close>.
\<close>

definition thin_src :: rand_src where
  "thin_src = \<lparr>ints = [0, 0, 1, 0], perms = []\<rparr>"

definition thin_maze :: Maze where
  "thin_maze =
     \<lparr>rooms =
        [[\<lparr>Treasure = False, Start = True,
            Walls = \<lparr>Top = True, Right = False, Bottom = True, Left = True\<rparr>\<rparr>,
          \<lparr>Treasure = True, Start = False,
            Walls = \<lparr>Top = True, Right = True, Bottom = True, Left = False\<rparr>\<rparr>,
          \<lparr>Treasure = False, Start = False,
            Walls = \<lparr>Top = True, Right = True, Bottom = True, Left = True\<rparr>\<rparr>]],
      start = \<lparr>X = 0, Y = 0\<rparr>,
      endc = \<lparr>X = 1, Y = 0\<rparr>,
      icarus = \<lparr>X = 0, Y = 0\<rparr>,
      StepsTaken = 0\<rparr>"

text \<open>
  Claim C1. Every grid that the builder produces is to be a spanning tree of open
  passages: connected, with \<open>W * H - 1\<close> open adjacent pairs. On the grid of width 3 and
  height 1, with the start at \<open>(0, 0)\<close> and the treasure at \<open>(1, 0)\<close>, the route is the two
  rooms of the start and the treasure; \<^verbatim>\<open>buildMaze\<close> draws the order of the flood fill
  with \<^verbatim>\<open>rand.Perm(len(route) - 1)\<close>, which leaves the last room of the route, the
  treasure, out, and the flood fill never starts from it. The room \<open>(2, 0)\<close> beyond the
  treasure keeps a wall on all four sides: the maze has one open pair where a spanning tree
  of three rooms has two, and no passage leads to \<open>(2, 0)\<close>.
\<close>

theorem thin_grid_not_spanning:
  "createMaze 3 1 thin_src = Some (thin_maze, \<lparr>ints = [], perms = []\<rparr>) \<and>
   open_pairs thin_maze = [(\<lparr>X = 0, Y = 0\<rparr>, \<lparr>X = 1, Y = 0\<rparr>)] \<and>
   length (open_pairs thin_maze) = 1 \<and> Width thin_maze * Height thin_maze - 1 = 2 \<and>
   Walls (room thin_maze \<lparr>X = 2, Y = 0\<rparr>)
     = \<lparr>Top = True, Right = True, Bottom = True, Left = True\<rparr>"
  by code_simp

section \<open>The walls of a generated maze\<close>

subsection \<open>Reading and writing rooms\<close>

text \<open>The four direction codes.\<close>

definition is_dir :: "int \<Rightarrow> bool" where
  "is_dir d = (d = N \<or> d = S \<or> d = E \<or> d = W)"

text \<open>Room \<open>c\<close> has a wall in direction \<open>d\<close>.\<close>

definition wall :: "Maze \<Rightarrow> Coordinate \<Rightarrow> int \<Rightarrow> bool" where
  "wall m c d = HasWall (Walls (room m c)) d"

text \<open>Two mazes on the same grid.\<close>

definition same_size :: "Maze \<Rightarrow> Maze \<Rightarrow> bool" where
  "same_size m m' = (Width m' = Width m \<and> Height m' = Height m)"

lemma Width_nth: "rooms m \<noteq> [] \<Longrightarrow> Width m = int (length (rooms m ! 0))"
  by (cases "rooms m") (simp_all add: Width_def)

lemma wf_row_length:
  assumes "wf_maze m" and "i < length (rooms m)"
  shows "int (length (rooms m ! i)) = Width m"
  using assms by (simp add: wf_maze_def list_all_length)

lemma contains_index:
  assumes "wf_maze m" and "Maze_contains m c"
  shows "nat (Y c) < length (rooms m)" and "nat (X c) < length (rooms m ! nat (Y c))"
proof -
  from assms(2) show y: "nat (Y c) < length (rooms m)"
    by (auto simp: Maze_contains_def Height_def)
  from wf_row_length [OF assms(1) y] assms(2)
  show "nat (X c) < length (rooms m ! nat (Y c))"
    by (auto simp: Maze_contains_def nat_less_iff)
qed

lemma updRoom_outside: "\<not> Maze_contains m \<lparr>X = x, Y = y\<rparr> \<Longrightarrow> updRoom m x y f = m"
  using GetRoom_err_iff [of m x y] by (simp add: updRoom_def)

lemma updRoom_inside:
  "Maze_contains m \<lparr>X = x, Y = y\<rparr> \<Longrightarrow>
   updRoom m x y f =
     m\<lparr>rooms := (rooms m)[nat y := (rooms m ! nat y)[nat x := f (rooms m ! nat y ! nat x)]]\<rparr>"
  using GetRoom_err_iff [of m x y] by (simp add: updRoom_def)

lemma updRoom_size:
  assumes "wf_maze m"
  shows "wf_maze (updRoom m x y f) \<and> Width (updRoom m x y f) = Width m
         \<and> Height (updRoom m x y f) = Height m"
proof (cases "Maze_contains m \<lparr>X = x, Y = y\<rparr>")
  case False
  then show ?thesis using assms by (simp add: updRoom_outside)
next
  case True
  let ?rs = "(rooms m)[nat y := (rooms m ! nat y)[nat x := f (rooms m ! nat y ! nat x)]]"
  have ne: "rooms m \<noteq> []" using assms by (simp add: wf_maze_def)
  have len: "length (?rs ! i) = length (rooms m ! i)" if "i < length (rooms m)" for i
    using that by (cases "i = nat y") simp_all
  have ne': "?rs \<noteq> []" using ne by simp
  have W: "Width (m\<lparr>rooms := ?rs\<rparr>) = Width m"
    using Width_nth [of "m\<lparr>rooms := ?rs\<rparr>"] Width_nth [OF ne] ne' ne len [of 0] by simp
  have H: "Height (m\<lparr>rooms := ?rs\<rparr>) = Height m" by (simp add: Height_def)
  have "list_all (\<lambda>row. int (length row) = Width m) ?rs"
    unfolding list_all_length
  proof (intro allI impI)
    fix i assume "i < length ?rs"
    then have i: "i < length (rooms m)" by simp
    from len [OF i] wf_row_length [OF assms i]
    show "int (length (?rs ! i)) = Width m" by simp
  qed
  with W H ne' assms have "wf_maze (m\<lparr>rooms := ?rs\<rparr>)"
    by (simp add: wf_maze_def)
  with W H show ?thesis by (simp add: updRoom_inside [OF True])
qed

lemma updRoom_contains [simp]:
  "wf_maze m \<Longrightarrow> Maze_contains (updRoom m x y f) c = Maze_contains m c"
  using updRoom_size [of m x y f] by (simp add: Maze_contains_def)

lemma room_updRoom:
  assumes "wf_maze m" and "Maze_contains m c"
  shows "room (updRoom m x y f) c = (if c = \<lparr>X = x, Y = y\<rparr> then f (room m c) else room m c)"
proof (cases "Maze_contains m \<lparr>X = x, Y = y\<rparr>")
  case False
  with assms(2) have "c \<noteq> \<lparr>X = x, Y = y\<rparr>" by auto
  with False show ?thesis by (simp add: updRoom_outside)
next
  case True
  note ix = contains_index [OF assms]
  from True have xy: "0 \<le> x" "0 \<le> y" by (simp_all add: Maze_contains_def)
  from assms(2) have c0: "0 \<le> X c" "0 \<le> Y c" by (simp_all add: Maze_contains_def)
  have ceq: "c = \<lparr>X = x, Y = y\<rparr> \<longleftrightarrow> X c = x \<and> Y c = y" by (cases c) auto
  show ?thesis
  proof (cases "Y c = y")
    case True
    with ix xy c0 ceq show ?thesis
      by (cases "X c = x") (simp_all add: room_def updRoom_inside [OF \<open>Maze_contains m \<lparr>X = x, Y = y\<rparr>\<close>])
  next
    case False
    then have "nat (Y c) \<noteq> nat y" using xy c0 by simp
    with ix ceq False show ?thesis
      by (simp add: room_def updRoom_inside [OF True])
  qed
qed

lemma HasWall_AddWall:
  "is_dir d \<Longrightarrow> HasWall (Walls (AddWall dir r)) d \<longleftrightarrow> HasWall (Walls r) d \<or> d = dir"
  by (auto simp: is_dir_def HasWall_def AddWall_def dir_defs)

lemma HasWall_RmWall:
  "is_dir d \<Longrightarrow> HasWall (Walls (RmWall dir r)) d \<longleftrightarrow> HasWall (Walls r) d \<and> d \<noteq> dir"
  by (auto simp: is_dir_def HasWall_def RmWall_def dir_defs)

lemma wall_updRoom_AddWall:
  assumes "wf_maze m" and "Maze_contains m c" and "is_dir d"
  shows "wall (updRoom m x y (AddWall dir)) c d \<longleftrightarrow> wall m c d \<or> (c = \<lparr>X = x, Y = y\<rparr> \<and> d = dir)"
  using assms by (simp add: wall_def room_updRoom HasWall_AddWall)

lemma wall_updRoom_RmWall:
  assumes "wf_maze m" and "Maze_contains m c" and "is_dir d"
  shows "wall (updRoom m x y (RmWall dir)) c d \<longleftrightarrow> wall m c d \<and> \<not> (c = \<lparr>X = x, Y = y\<rparr> \<and> d = dir)"
  using assms by (auto simp: wall_def room_updRoom HasWall_RmWall)

lemma coord_eta [simp]: "\<lparr>X = X c, Y = Y c\<rparr> = c"
  by (cases c) simp

subsection \<open>Neighbours inside the grid\<close>

lemma is_dir_Rev: "is_dir d \<Longrightarrow> is_dir (ReverseDirection d) \<and> ReverseDirection (ReverseDirection d) = d"
  by (auto simp: is_dir_def ReverseDirection_def dir_defs)

lemma contains_coord:
  assumes "wf_maze m" and "Maze_contains m c"
  shows "is_coord c" and "is_dir d \<Longrightarrow> step_fits c d"
proof -
  from assms have b: "0 \<le> X c" "X c < maxInt" "0 \<le> Y c" "Y c < maxInt"
    by (simp_all add: wf_maze_def Maze_contains_def)
  then show "is_coord c" by (simp add: is_coord_def is_int_def minInt_def)
  from b show "step_fits c d" if "is_dir d"
    using that by (auto simp: step_fits_def is_dir_def minInt_def dir_defs)
qed

lemma Neighbor_grid:
  assumes "wf_maze m" and "Maze_contains m c" and "is_dir d"
  shows "Neighbor c d =
     (if d = N then \<lparr>X = X c, Y = Y c - 1\<rparr>
      else if d = S then \<lparr>X = X c, Y = Y c + 1\<rparr>
      else if d = W then \<lparr>X = X c - 1, Y = Y c\<rparr>
      else \<lparr>X = X c + 1, Y = Y c\<rparr>)"
  using Neighbor_plain [OF contains_coord(1) [OF assms(1,2)] contains_coord(2) [OF assms]] .

lemma Neighbor_back:
  assumes "wf_maze m" and "Maze_contains m c" and "is_dir d" and "Maze_contains m (Neighbor c d)"
  shows "Neighbor (Neighbor c d) (ReverseDirection d) = c"
    and "Neighbor c d \<noteq> c"
    and "GetDir c (Neighbor c d) = d"
    and "GetDir (Neighbor c d) c = ReverseDirection d"
    and "adjacent c (Neighbor c d)"
proof -
  note n1 = Neighbor_grid [OF assms(1,2,3)]
  note n2 = Neighbor_grid [OF assms(1) assms(4) is_dir_Rev [THEN conjunct1, OF assms(3)]]
  from assms(3) consider "d = N" | "d = S" | "d = E" | "d = W" by (auto simp: is_dir_def)
  then have "Neighbor (Neighbor c d) (ReverseDirection d) = c \<and> Neighbor c d \<noteq> c
      \<and> GetDir c (Neighbor c d) = d \<and> GetDir (Neighbor c d) c = ReverseDirection d
      \<and> adjacent c (Neighbor c d)"
  proof cases
    case 1
    with n1 n2 show ?thesis
      by (cases c) (simp add: ReverseDirection_def dir_defs GetDir_def adjacent_def)
  next
    case 2
    with n1 n2 show ?thesis
      by (cases c) (simp add: ReverseDirection_def dir_defs GetDir_def adjacent_def)
  next
    case 3
    with n1 n2 show ?thesis
      by (cases c) (simp add: ReverseDirection_def dir_defs GetDir_def adjacent_def)
  next
    case 4
    with n1 n2 show ?thesis
      by (cases c) (simp add: ReverseDirection_def dir_defs GetDir_def adjacent_def)
  qed
  then show "Neighbor (Neighbor c d) (ReverseDirection d) = c"
    and "Neighbor c d \<noteq> c"
    and "GetDir c (Neighbor c d) = d"
    and "GetDir (Neighbor c d) c = ReverseDirection d"
    and "adjacent c (Neighbor c d)" by simp_all
qed

lemma adjacent_sym: "adjacent a b \<Longrightarrow> adjacent b a"
  by (simp add: adjacent_def abs_minus_commute)

lemma adjacent_Neighbor:
  assumes "wf_maze m" and "Maze_contains m a" and "Maze_contains m b" and "adjacent a b"
  shows "is_dir (GetDir a b) \<and> Neighbor a (GetDir a b) = b"
proof -
  have c: "is_coord a" "is_coord b" using assms by (simp_all add: contains_coord)
  have "is_dir (GetDir a b)" by (simp add: GetDir_def is_dir_def)
  moreover have "Neighbor a (GetDir a b) = b"
    using Neighbor_GetDir [OF c assms(4)] .
  ultimately show ?thesis by simp
qed

subsection \<open>Invariants of the wall operations\<close>

text \<open>
  The two sides of the wall between \<open>c\<close> and its neighbour in direction \<open>dir\<close>: the side
  of \<open>c\<close> facing \<open>dir\<close>, and the side of the neighbour facing back.
\<close>

definition edge :: "Coordinate \<Rightarrow> int \<Rightarrow> Coordinate \<Rightarrow> int \<Rightarrow> bool" where
  "edge c dir a d = ((a = c \<and> d = dir) \<or> (a = Neighbor c dir \<and> d = ReverseDirection dir))"

text \<open>
  Wall symmetry, by directions: a room of the grid has a wall towards a neighbour of the
  grid exactly if the neighbour has one towards it.
\<close>

definition sym_walls :: "Maze \<Rightarrow> bool" where
  "sym_walls m =
     (\<forall>c d. Maze_contains m c \<and> is_dir d \<and> Maze_contains m (Neighbor c d)
        \<longrightarrow> wall m c d = wall m (Neighbor c d) (ReverseDirection d))"

text \<open>Every side of a room that faces out of the grid has a wall.\<close>

definition outer_walls :: "Maze \<Rightarrow> bool" where
  "outer_walls m =
     (\<forall>c d. Maze_contains m c \<and> is_dir d \<and> \<not> Maze_contains m (Neighbor c d) \<longrightarrow> wall m c d)"

lemma edge_flip:
  assumes "wf_maze m" and "Maze_contains m c" and "is_dir dir" and "Maze_contains m (Neighbor c dir)"
    and "Maze_contains m a" and "is_dir d" and "Maze_contains m (Neighbor a d)"
  shows "edge c dir a d \<longleftrightarrow> edge c dir (Neighbor a d) (ReverseDirection d)"
proof
  assume "edge c dir a d"
  then show "edge c dir (Neighbor a d) (ReverseDirection d)"
    using Neighbor_back(1) [OF assms(1,2,3,4)] is_dir_Rev [OF assms(3)]
    by (auto simp: edge_def)
next
  assume e: "edge c dir (Neighbor a d) (ReverseDirection d)"
  have bk: "Neighbor (Neighbor a d) (ReverseDirection d) = a"
    using Neighbor_back(1) [OF assms(1) assms(5,6,7)] .
  from e show "edge c dir a d"
  proof (unfold edge_def, elim disjE conjE)
    assume h: "Neighbor a d = c" "ReverseDirection d = dir"
    with bk have "a = Neighbor c dir" by simp
    moreover from h is_dir_Rev [OF assms(6)] have "d = ReverseDirection dir" by auto
    ultimately show "a = c \<and> d = dir \<or> a = Neighbor c dir \<and> d = ReverseDirection dir" by simp
  next
    assume h: "Neighbor a d = Neighbor c dir" "ReverseDirection d = ReverseDirection dir"
    from h(2) is_dir_Rev [OF assms(6)] is_dir_Rev [OF assms(3)] have dd: "d = dir" by metis
    from bk h have "a = Neighbor (Neighbor c dir) (ReverseDirection dir)" by simp
    with Neighbor_back(1) [OF assms(1,2,3,4)] have "a = c" by simp
    with dd show "a = c \<and> d = dir \<or> a = Neighbor c dir \<and> d = ReverseDirection dir" by simp
  qed
qed

lemma edge_inside:
  assumes "wf_maze m" and "Maze_contains m c" and "is_dir dir" and "Maze_contains m (Neighbor c dir)"
    and "edge c dir a d"
  shows "Maze_contains m (Neighbor a d)"
  using assms Neighbor_back(1) [OF assms(1,2,3,4)] by (auto simp: edge_def)

text \<open>Walls change by a set of sides that is closed under looking from the other room.\<close>

lemma sym_walls_add:
  assumes "sym_walls m"
    and "\<And>a d. Maze_contains m' a = Maze_contains m a"
    and "\<And>a d. Maze_contains m a \<Longrightarrow> is_dir d \<Longrightarrow> wall m' a d \<longleftrightarrow> wall m a d \<or> Q a d"
    and "\<And>a d. Maze_contains m a \<Longrightarrow> is_dir d \<Longrightarrow> Maze_contains m (Neighbor a d)
            \<Longrightarrow> Q a d \<longleftrightarrow> Q (Neighbor a d) (ReverseDirection d)"
  shows "sym_walls m'"
  unfolding sym_walls_def
proof (intro allI impI)
  fix c d
  assume h: "Maze_contains m' c \<and> is_dir d \<and> Maze_contains m' (Neighbor c d)"
  then have c: "Maze_contains m c" "is_dir d" "Maze_contains m (Neighbor c d)"
    by (simp_all add: assms(2))
  have "wall m c d = wall m (Neighbor c d) (ReverseDirection d)"
    using assms(1) c by (simp add: sym_walls_def)
  with assms(3) [OF c(1,2)] assms(3) [OF c(3) is_dir_Rev [THEN conjunct1, OF c(2)]]
       assms(4) [OF c]
  show "wall m' c d = wall m' (Neighbor c d) (ReverseDirection d)" by simp
qed

lemma sym_walls_remove:
  assumes "sym_walls m"
    and "\<And>a d. Maze_contains m' a = Maze_contains m a"
    and "\<And>a d. Maze_contains m a \<Longrightarrow> is_dir d \<Longrightarrow> wall m' a d \<longleftrightarrow> wall m a d \<and> \<not> Q a d"
    and "\<And>a d. Maze_contains m a \<Longrightarrow> is_dir d \<Longrightarrow> Maze_contains m (Neighbor a d)
            \<Longrightarrow> Q a d \<longleftrightarrow> Q (Neighbor a d) (ReverseDirection d)"
  shows "sym_walls m'"
  unfolding sym_walls_def
proof (intro allI impI)
  fix c d
  assume h: "Maze_contains m' c \<and> is_dir d \<and> Maze_contains m' (Neighbor c d)"
  then have c: "Maze_contains m c" "is_dir d" "Maze_contains m (Neighbor c d)"
    by (simp_all add: assms(2))
  have "wall m c d = wall m (Neighbor c d) (ReverseDirection d)"
    using assms(1) c by (simp add: sym_walls_def)
  with assms(3) [OF c(1,2)] assms(3) [OF c(3) is_dir_Rev [THEN conjunct1, OF c(2)]]
       assms(4) [OF c]
  show "wall m' c d = wall m' (Neighbor c d) (ReverseDirection d)" by simp
qed

paragraph \<open>addWall\<close>

lemma addWall_size:
  assumes "wf_maze m"
  shows "wf_maze (addWall m c dir) \<and> Width (addWall m c dir) = Width m
         \<and> Height (addWall m c dir) = Height m"
  using updRoom_size [OF assms, of "X c" "Y c" "AddWall dir"]
        updRoom_size [of "updRoom m (X c) (Y c) (AddWall dir)" "X (Neighbor c dir)"
          "Y (Neighbor c dir)" "AddWall (ReverseDirection dir)"]
        assms
  by (simp add: addWall_def Let_def)

lemma addWall_contains [simp]:
  "wf_maze m \<Longrightarrow> Maze_contains (addWall m c dir) a = Maze_contains m a"
  using addWall_size [of m c dir] by (simp add: Maze_contains_def)

lemma wall_addWall:
  assumes "wf_maze m" and "Maze_contains m a" and "is_dir d"
  shows "wall (addWall m c dir) a d \<longleftrightarrow>
           wall m a d \<or> (Maze_contains m (Neighbor c dir) \<and> edge c dir a d)"
proof (cases "Maze_contains m (Neighbor c dir)")
  case False
  then show ?thesis by (simp add: addWall_def)
next
  case True
  let ?m1 = "updRoom m (X c) (Y c) (AddWall dir)"
  have wf1: "wf_maze ?m1" using updRoom_size [OF assms(1)] by simp
  have a1: "Maze_contains ?m1 a" using assms(1,2) by simp
  show ?thesis
    using True wall_updRoom_AddWall [OF wf1 a1 assms(3)]
          wall_updRoom_AddWall [OF assms]
    by (auto simp: addWall_def Let_def edge_def)
qed

lemma addWall_inv:
  assumes "wf_maze m" and "Maze_contains m c" and "is_dir dir"
  shows "sym_walls m \<Longrightarrow> sym_walls (addWall m c dir)"
    and "outer_walls m \<Longrightarrow> outer_walls (addWall m c dir)"
proof -
  assume s: "sym_walls m"
  show "sym_walls (addWall m c dir)"
  proof (rule sym_walls_add [OF s, where Q = "\<lambda>a d. Maze_contains m (Neighbor c dir) \<and> edge c dir a d"])
    fix a d
    show "Maze_contains (addWall m c dir) a = Maze_contains m a" using assms(1) by simp
    show "wall (addWall m c dir) a d \<longleftrightarrow>
        wall m a d \<or> (Maze_contains m (Neighbor c dir) \<and> edge c dir a d)"
      if "Maze_contains m a" "is_dir d"
      using wall_addWall [OF assms(1) that] .
    show "(Maze_contains m (Neighbor c dir) \<and> edge c dir a d) \<longleftrightarrow>
        (Maze_contains m (Neighbor c dir) \<and> edge c dir (Neighbor a d) (ReverseDirection d))"
      if "Maze_contains m a" "is_dir d" "Maze_contains m (Neighbor a d)"
      using edge_flip [OF assms(1,2,3) _ that] by blast
  qed
next
  assume o: "outer_walls m"
  show "outer_walls (addWall m c dir)"
    unfolding outer_walls_def
  proof (intro allI impI)
    fix a d
    assume "Maze_contains (addWall m c dir) a \<and> is_dir d
        \<and> \<not> Maze_contains (addWall m c dir) (Neighbor a d)"
    then have h: "Maze_contains m a" "is_dir d" "\<not> Maze_contains m (Neighbor a d)"
      using assms(1) by simp_all
    with o have "wall m a d" by (simp add: outer_walls_def)
    then show "wall (addWall m c dir) a d"
      using wall_addWall [OF assms(1) h(1,2)] by simp
  qed
qed

paragraph \<open>sealRoom\<close>

lemma is_dir_simps [simp]: "is_dir N" "is_dir S" "is_dir E" "is_dir W"
  by (simp_all add: is_dir_def)

lemma sealRoom_inv:
  assumes "wf_maze m" and "Maze_contains m c"
  shows "wf_maze (sealRoom m c) \<and> Width (sealRoom m c) = Width m \<and> Height (sealRoom m c) = Height m"
    and "sym_walls m \<Longrightarrow> sym_walls (sealRoom m c)"
    and "outer_walls m \<Longrightarrow> outer_walls (sealRoom m c)"
proof -
  let ?m1 = "addWall m c N"
  let ?m2 = "addWall ?m1 c S"
  let ?m3 = "addWall ?m2 c E"
  have w1: "wf_maze ?m1" and w2: "wf_maze ?m2" and w3: "wf_maze ?m3"
    using assms(1) by (simp_all add: addWall_size)
  have c1: "Maze_contains ?m1 c" and c2: "Maze_contains ?m2 c" and c3: "Maze_contains ?m3 c"
    using assms w1 w2 by simp_all
  show "wf_maze (sealRoom m c) \<and> Width (sealRoom m c) = Width m \<and> Height (sealRoom m c) = Height m"
    using assms(1) w1 w2 w3 by (simp add: sealRoom_def addWall_size)
  show "sym_walls (sealRoom m c)" if "sym_walls m"
    unfolding sealRoom_def
    using addWall_inv(1) [OF w3 c3 is_dir_simps(4)] addWall_inv(1) [OF w2 c2 is_dir_simps(3)]
      addWall_inv(1) [OF w1 c1 is_dir_simps(2)] addWall_inv(1) [OF assms is_dir_simps(1)] that
    by blast
  show "outer_walls (sealRoom m c)" if "outer_walls m"
    unfolding sealRoom_def
    using addWall_inv(2) [OF w3 c3 is_dir_simps(4)] addWall_inv(2) [OF w2 c2 is_dir_simps(3)]
      addWall_inv(2) [OF w1 c1 is_dir_simps(2)] addWall_inv(2) [OF assms is_dir_simps(1)] that
    by blast
qed

paragraph \<open>removeWallBetween\<close>

lemma removeWallBetween_size:
  assumes "wf_maze m"
  shows "wf_maze (removeWallBetween m c1 c2) \<and> Width (removeWallBetween m c1 c2) = Width m
         \<and> Height (removeWallBetween m c1 c2) = Height m"
  using updRoom_size [OF assms, of "X c1" "Y c1" "RmWall (GetDir c1 c2)"]
        updRoom_size [of "updRoom m (X c1) (Y c1) (RmWall (GetDir c1 c2))" "X c2" "Y c2"
          "RmWall (GetDir c2 c1)"]
  by (simp add: removeWallBetween_def)

lemma removeWallBetween_contains [simp]:
  "wf_maze m \<Longrightarrow> Maze_contains (removeWallBetween m c1 c2) a = Maze_contains m a"
  using removeWallBetween_size [of m c1 c2] by (simp add: Maze_contains_def)

lemma wall_removeWallBetween:
  assumes "wf_maze m" and "Maze_contains m c1" and "Maze_contains m c2" and "adjacent c1 c2"
    and "Maze_contains m a" and "is_dir d"
  shows "wall (removeWallBetween m c1 c2) a d \<longleftrightarrow> wall m a d \<and> \<not> edge c1 (GetDir c1 c2) a d"
proof -
  let ?d0 = "GetDir c1 c2"
  have d0: "is_dir ?d0" "Neighbor c1 ?d0 = c2"
    using adjacent_Neighbor [OF assms(1,2,3,4)] by simp_all
  have c2': "Maze_contains m (Neighbor c1 ?d0)" using d0 assms(3) by simp
  have bk: "GetDir c2 c1 = ReverseDirection ?d0"
    using Neighbor_back(4) [OF assms(1,2) d0(1) c2'] d0(2) by simp
  let ?m1 = "updRoom m (X c1) (Y c1) (RmWall ?d0)"
  have wf1: "wf_maze ?m1" using updRoom_size [OF assms(1)] by simp
  have a1: "Maze_contains ?m1 a" using assms(1,5) by simp
  show ?thesis
    using wall_updRoom_RmWall [OF wf1 a1 assms(6)] wall_updRoom_RmWall [OF assms(1,5,6)]
    by (auto simp: removeWallBetween_def bk edge_def d0(2))
qed

lemma removeWallBetween_inv:
  assumes "wf_maze m" and "Maze_contains m c1" and "Maze_contains m c2" and "adjacent c1 c2"
  shows "sym_walls m \<Longrightarrow> sym_walls (removeWallBetween m c1 c2)"
    and "outer_walls m \<Longrightarrow> outer_walls (removeWallBetween m c1 c2)"
proof -
  let ?d0 = "GetDir c1 c2"
  have d0: "is_dir ?d0" "Neighbor c1 ?d0 = c2"
    using adjacent_Neighbor [OF assms(1,2,3,4)] by simp_all
  have c2': "Maze_contains m (Neighbor c1 ?d0)" using d0 assms(3) by simp
  {
    assume s: "sym_walls m"
    show "sym_walls (removeWallBetween m c1 c2)"
    proof (rule sym_walls_remove [OF s, where Q = "edge c1 ?d0"])
      fix a d
      show "Maze_contains (removeWallBetween m c1 c2) a = Maze_contains m a"
        using assms(1) by simp
      show "wall (removeWallBetween m c1 c2) a d \<longleftrightarrow> wall m a d \<and> \<not> edge c1 ?d0 a d"
        if "Maze_contains m a" "is_dir d"
        using wall_removeWallBetween [OF assms that] .
      show "edge c1 ?d0 a d \<longleftrightarrow> edge c1 ?d0 (Neighbor a d) (ReverseDirection d)"
        if "Maze_contains m a" "is_dir d" "Maze_contains m (Neighbor a d)"
        using edge_flip [OF assms(1,2) d0(1) c2' that] .
    qed
  }
  {
    assume o: "outer_walls m"
    show "outer_walls (removeWallBetween m c1 c2)"
      unfolding outer_walls_def
    proof (intro allI impI)
      fix a d
      assume "Maze_contains (removeWallBetween m c1 c2) a \<and> is_dir d
          \<and> \<not> Maze_contains (removeWallBetween m c1 c2) (Neighbor a d)"
      then have h: "Maze_contains m a" "is_dir d" "\<not> Maze_contains m (Neighbor a d)"
        using assms(1) by simp_all
      with o have w: "wall m a d" by (simp add: outer_walls_def)
      have "\<not> edge c1 ?d0 a d"
        using edge_inside [OF assms(1,2) d0(1) c2'] h(3) by blast
      with w show "wall (removeWallBetween m c1 c2) a d"
        using wall_removeWallBetween [OF assms h(1,2)] by simp
    qed
  }
qed

subsection \<open>The boundary\<close>

text \<open>The sides that \<^verbatim>\<open>addBoundary\<close> walls up.\<close>

definition on_edge :: "Maze \<Rightarrow> Coordinate \<Rightarrow> int \<Rightarrow> bool" where
  "on_edge m a d =
     ((Y a = 0 \<and> d = N) \<or> (Y a = Height m - 1 \<and> d = S)
      \<or> (X a = 0 \<and> d = W) \<or> (X a = Width m - 1 \<and> d = E))"

lemma on_edge_iff:
  assumes "wf_maze m" and "Maze_contains m a" and "is_dir d"
  shows "on_edge m a d \<longleftrightarrow> \<not> Maze_contains m (Neighbor a d)"
proof -
  from assms(3) consider "d = N" | "d = S" | "d = E" | "d = W" by (auto simp: is_dir_def)
  then show ?thesis
  proof cases
    case 1
    with assms(2) Neighbor_grid [OF assms] show ?thesis
      by (auto simp: on_edge_def Maze_contains_def dir_defs)
  next
    case 2
    with assms(2) Neighbor_grid [OF assms] show ?thesis
      by (auto simp: on_edge_def Maze_contains_def dir_defs)
  next
    case 3
    with assms(2) Neighbor_grid [OF assms] show ?thesis
      by (auto simp: on_edge_def Maze_contains_def dir_defs)
  next
    case 4
    with assms(2) Neighbor_grid [OF assms] show ?thesis
      by (auto simp: on_edge_def Maze_contains_def dir_defs)
  qed
qed

lemma fold_columns:
  assumes "wf_maze m"
  shows "let m' = fold (\<lambda>x m. updRoom (updRoom m x 0 (AddWall N)) x (Height m - 1) (AddWall S)) xs m
    in wf_maze m' \<and> Width m' = Width m \<and> Height m' = Height m \<and>
    (\<forall>a d. Maze_contains m a \<and> is_dir d \<longrightarrow>
       (wall m' a d \<longleftrightarrow> wall m a d
          \<or> (X a \<in> set xs \<and> ((Y a = 0 \<and> d = N) \<or> (Y a = Height m - 1 \<and> d = S)))))"
  using assms unfolding Let_def
proof (induction xs arbitrary: m)
  case Nil
  then show ?case by simp
next
  case (Cons x xs)
  let ?m0 = "updRoom m x 0 (AddWall N)"
  let ?m1 = "updRoom ?m0 x (Height m - 1) (AddWall S)"
  have wf0: "wf_maze ?m0" "Width ?m0 = Width m" "Height ?m0 = Height m"
    using updRoom_size [OF Cons.prems] by simp_all
  have wf1: "wf_maze ?m1" "Width ?m1 = Width m" "Height ?m1 = Height m"
    using updRoom_size [OF wf0(1)] wf0 by simp_all
  have c1: "Maze_contains ?m1 a = Maze_contains m a" for a
    using wf1 by (simp add: Maze_contains_def)
  have w1: "wall ?m1 a d \<longleftrightarrow> wall m a d \<or> (a = \<lparr>X = x, Y = 0\<rparr> \<and> d = N)
      \<or> (a = \<lparr>X = x, Y = Height m - 1\<rparr> \<and> d = S)"
    if "Maze_contains m a" "is_dir d" for a d
    using wall_updRoom_AddWall [OF wf0(1) _ that(2), of a] wall_updRoom_AddWall [OF Cons.prems that]
      that(1) Cons.prems by auto
  have eqc: "a = \<lparr>X = x, Y = y\<rparr> \<longleftrightarrow> X a = x \<and> Y a = y" for a :: Coordinate and x y
    by (cases a) auto
  from Cons.IH [OF wf1(1)] wf1 c1 w1
  show ?case by (auto simp: eqc)
qed

lemma fold_rows:
  assumes "wf_maze m"
  shows "let m' = fold (\<lambda>y m. updRoom (updRoom m 0 y (AddWall W)) (Width m - 1) y (AddWall E)) ys m
    in wf_maze m' \<and> Width m' = Width m \<and> Height m' = Height m \<and>
    (\<forall>a d. Maze_contains m a \<and> is_dir d \<longrightarrow>
       (wall m' a d \<longleftrightarrow> wall m a d
          \<or> (Y a \<in> set ys \<and> ((X a = 0 \<and> d = W) \<or> (X a = Width m - 1 \<and> d = E)))))"
  using assms unfolding Let_def
proof (induction ys arbitrary: m)
  case Nil
  then show ?case by simp
next
  case (Cons y ys)
  let ?m0 = "updRoom m 0 y (AddWall W)"
  let ?m1 = "updRoom ?m0 (Width m - 1) y (AddWall E)"
  have wf0: "wf_maze ?m0" "Width ?m0 = Width m" "Height ?m0 = Height m"
    using updRoom_size [OF Cons.prems] by simp_all
  have wf1: "wf_maze ?m1" "Width ?m1 = Width m" "Height ?m1 = Height m"
    using updRoom_size [OF wf0(1)] wf0 by simp_all
  have c1: "Maze_contains ?m1 a = Maze_contains m a" for a
    using wf1 by (simp add: Maze_contains_def)
  have w1: "wall ?m1 a d \<longleftrightarrow> wall m a d \<or> (a = \<lparr>X = 0, Y = y\<rparr> \<and> d = W)
      \<or> (a = \<lparr>X = Width m - 1, Y = y\<rparr> \<and> d = E)"
    if "Maze_contains m a" "is_dir d" for a d
    using wall_updRoom_AddWall [OF wf0(1) _ that(2), of a] wall_updRoom_AddWall [OF Cons.prems that]
      that(1) Cons.prems by auto
  have eqc: "a = \<lparr>X = x, Y = y\<rparr> \<longleftrightarrow> X a = x \<and> Y a = y" for a :: Coordinate and x y
    by (cases a) auto
  from Cons.IH [OF wf1(1)] wf1 c1 w1
  show ?case by (auto simp: eqc)
qed

lemma set_map_int_upt: "x \<in> set (map int [0..<nat n]) \<longleftrightarrow> 0 \<le> x \<and> x < n"
  by (cases "0 \<le> x") (auto simp: image_iff intro!: bexI [of _ "nat x"])

lemma addBoundary_walls:
  assumes "wf_maze m"
  shows "wf_maze (addBoundary m) \<and> Width (addBoundary m) = Width m
         \<and> Height (addBoundary m) = Height m"
    and "Maze_contains m a \<Longrightarrow> is_dir d \<Longrightarrow>
         wall (addBoundary m) a d \<longleftrightarrow> wall m a d \<or> \<not> Maze_contains m (Neighbor a d)"
proof -
  define m1 where "m1 = fold (\<lambda>x m. updRoom (updRoom m x 0 (AddWall N)) x (Height m - 1) (AddWall S))
                 (map int [0..<nat (Width m)]) m"
  define m2 where "m2 = fold (\<lambda>y m. updRoom (updRoom m 0 y (AddWall W)) (Width m - 1) y (AddWall E))
                 (map int [0..<nat (Height m)]) m1"
  note f1 = fold_columns [OF assms, of "map int [0..<nat (Width m)]", unfolded Let_def,
      folded m1_def]
  then have wf1: "wf_maze m1" and W1: "Width m1 = Width m" and H1: "Height m1 = Height m"
    by blast+
  note f2 = fold_rows [OF wf1, of "map int [0..<nat (Height m1)]", unfolded Let_def]
  have m2: "m2 = fold (\<lambda>y m. updRoom (updRoom m 0 y (AddWall W)) (Width m - 1) y (AddWall E))
                 (map int [0..<nat (Height m1)]) m1"
    unfolding m2_def H1 ..
  note f2' = f2 [folded m2]
  have ab: "addBoundary m = m2"
    unfolding addBoundary_def Let_def m2_def m1_def ..
  from f2' have wf2: "wf_maze m2" and W2: "Width m2 = Width m1" and H2: "Height m2 = Height m1"
    by blast+
  show "wf_maze (addBoundary m) \<and> Width (addBoundary m) = Width m
         \<and> Height (addBoundary m) = Height m"
    unfolding ab using wf2 W2 H2 W1 H1 by simp
  assume a: "Maze_contains m a" and d: "is_dir d"
  then have a1: "Maze_contains m1 a" using W1 H1 by (simp add: Maze_contains_def)
  have s1: "wall m1 a d \<longleftrightarrow> wall m a d
      \<or> (X a \<in> set (map int [0..<nat (Width m)]) \<and> ((Y a = 0 \<and> d = N) \<or> (Y a = Height m - 1 \<and> d = S)))"
    using f1 a d by blast
  have s2: "wall m2 a d \<longleftrightarrow> wall m1 a d
      \<or> (Y a \<in> set (map int [0..<nat (Height m1)]) \<and> ((X a = 0 \<and> d = W) \<or> (X a = Width m1 - 1 \<and> d = E)))"
    using f2' a1 d by blast
  have xin: "X a \<in> set (map int [0..<nat (Width m)])"
    and yin: "Y a \<in> set (map int [0..<nat (Height m1)])"
    using a unfolding set_map_int_upt H1 by (simp_all add: Maze_contains_def)
  have "wall m2 a d \<longleftrightarrow> wall m a d \<or> on_edge m a d"
    unfolding s2 s1 on_edge_def W1 using xin yin by blast
  then show "wall (addBoundary m) a d \<longleftrightarrow> wall m a d \<or> \<not> Maze_contains m (Neighbor a d)"
    unfolding ab using on_edge_iff [OF assms a d] by simp
qed

lemma addBoundary_inv:
  assumes "wf_maze m"
  shows "outer_walls (addBoundary m)" and "sym_walls m \<Longrightarrow> sym_walls (addBoundary m)"
proof -
  note ab = addBoundary_walls [OF assms]
  have c: "Maze_contains (addBoundary m) a = Maze_contains m a" for a
    using ab(1) by (simp add: Maze_contains_def)
  show "outer_walls (addBoundary m)"
    unfolding outer_walls_def using ab(2) c by auto
  assume s: "sym_walls m"
  show "sym_walls (addBoundary m)"
    unfolding sym_walls_def
  proof (intro allI impI)
    fix a d
    assume "Maze_contains (addBoundary m) a \<and> is_dir d \<and> Maze_contains (addBoundary m) (Neighbor a d)"
    then have h: "Maze_contains m a" "is_dir d" "Maze_contains m (Neighbor a d)"
      by (simp_all add: c)
    have bk: "Maze_contains m (Neighbor (Neighbor a d) (ReverseDirection d))"
      using Neighbor_back(1) [OF assms h] h(1) by simp
    from s h have "wall m a d = wall m (Neighbor a d) (ReverseDirection d)"
      by (simp add: sym_walls_def)
    with ab(2) [OF h(1,2)] ab(2) [OF h(3) is_dir_Rev [THEN conjunct1, OF h(2)]] h(3) bk
    show "wall (addBoundary m) a d = wall (addBoundary m) (Neighbor a d) (ReverseDirection d)"
      by simp
  qed
qed

paragraph \<open>The empty maze, the start and the treasure\<close>

lemma emptyMaze_wf:
  assumes "emptyMaze xSize ySize = Some m" and "0 < xSize" and "0 < ySize"
    and "xSize \<le> maxInt" and "ySize \<le> maxInt"
  shows "wf_maze m" and "Width m = xSize" and "Height m = ySize"
    and "Maze_contains m a \<Longrightarrow> room m a = Room0"
proof -
  from assms(1,3) have m: "rooms m = replicate (nat ySize) (replicate (nat xSize) Room0)"
    by (auto simp: emptyMaze_def split: if_splits)
  from assms(3) obtain k where k: "nat ySize = Suc k" by (cases "nat ySize") auto
  show W: "Width m = xSize" using assms(2) by (simp add: Width_def m k)
  show H: "Height m = ySize" using assms(3) by (simp add: Height_def m)
  show "wf_maze m" using assms W H by (simp add: wf_maze_def m k list_all_iff)
  assume "Maze_contains m a"
  then have "nat (Y a) < nat ySize" "nat (X a) < nat xSize"
    unfolding Maze_contains_def W H by auto
  then show "room m a = Room0" by (simp add: room_def m)
qed

lemma flag_update_walls:
  assumes "wf_maze m" and "\<And>r. Walls (f r) = Walls r"
  shows "wf_maze (updRoom m x y f) \<and> Width (updRoom m x y f) = Width m
         \<and> Height (updRoom m x y f) = Height m"
    and "Maze_contains m a \<Longrightarrow> wall (updRoom m x y f) a d = wall m a d"
  using updRoom_size [OF assms(1)] apply simp
  using room_updRoom [OF assms(1), of a x y f] assms(2) by (simp add: wall_def)

lemma same_rooms:
  assumes "rooms m' = rooms m"
  shows "wf_maze m' = wf_maze m" and "Width m' = Width m" and "Height m' = Height m"
    and "wall m' a d = wall m a d"
  using assms by (simp_all add: wf_maze_def Width_def Height_def wall_def room_def)

lemma SetStartPoint_walls:
  assumes "wf_maze m"
  shows "wf_maze (snd (SetStartPoint m x y)) \<and> Width (snd (SetStartPoint m x y)) = Width m
         \<and> Height (snd (SetStartPoint m x y)) = Height m"
    and "Maze_contains m a \<Longrightarrow> wall (snd (SetStartPoint m x y)) a d = wall m a d"
proof -
  let ?u = "updRoom m x y (\<lambda>r. r\<lparr>Start := True\<rparr>)"
  note u = flag_update_walls [OF assms, where f = "\<lambda>r. r\<lparr>Start := True\<rparr>" and x = x and y = y]
  have i: "wf_maze (?u\<lparr>icarus := c\<rparr>) \<and> Width (?u\<lparr>icarus := c\<rparr>) = Width m
      \<and> Height (?u\<lparr>icarus := c\<rparr>) = Height m" for c
    using u(1) same_rooms(1,2,3) [of "?u\<lparr>icarus := c\<rparr>" ?u] by simp
  have w: "wall (?u\<lparr>icarus := c\<rparr>) a d = wall m a d" if "Maze_contains m a" for c
    using u(2) [OF _ that] same_rooms(4) [of "?u\<lparr>icarus := c\<rparr>" ?u] by simp
  show "wf_maze (snd (SetStartPoint m x y)) \<and> Width (snd (SetStartPoint m x y)) = Width m
         \<and> Height (snd (SetStartPoint m x y)) = Height m"
    using i assms by (auto simp: SetStartPoint_def split: prod.splits option.splits)
  show "wall (snd (SetStartPoint m x y)) a d = wall m a d" if "Maze_contains m a"
    using w [OF that] by (auto simp: SetStartPoint_def split: prod.splits option.splits)
qed

lemma SetTreasure_walls:
  assumes "wf_maze m"
  shows "wf_maze (snd (SetTreasure m x y)) \<and> Width (snd (SetTreasure m x y)) = Width m
         \<and> Height (snd (SetTreasure m x y)) = Height m"
    and "Maze_contains m a \<Longrightarrow> wall (snd (SetTreasure m x y)) a d = wall m a d"
proof -
  let ?u = "updRoom m x y (\<lambda>r. r\<lparr>Treasure := True\<rparr>)"
  note u = flag_update_walls [OF assms, where f = "\<lambda>r. r\<lparr>Treasure := True\<rparr>" and x = x and y = y]
  have i: "wf_maze (?u\<lparr>endc := c\<rparr>) \<and> Width (?u\<lparr>endc := c\<rparr>) = Width m
      \<and> Height (?u\<lparr>endc := c\<rparr>) = Height m" for c
    using u(1) same_rooms(1,2,3) [of "?u\<lparr>endc := c\<rparr>" ?u] by simp
  have w: "wall (?u\<lparr>endc := c\<rparr>) a d = wall m a d" if "Maze_contains m a" for c
    using u(2) [OF _ that] same_rooms(4) [of "?u\<lparr>endc := c\<rparr>" ?u] by simp
  show "wf_maze (snd (SetTreasure m x y)) \<and> Width (snd (SetTreasure m x y)) = Width m
         \<and> Height (snd (SetTreasure m x y)) = Height m"
    using i assms by (auto simp: SetTreasure_def split: prod.splits option.splits)
  show "wall (snd (SetTreasure m x y)) a d = wall m a d" if "Maze_contains m a"
    using w [OF that] by (auto simp: SetTreasure_def split: prod.splits option.splits)
qed

subsection \<open>Routes stay in their region\<close>

text \<open>
  A region that lies in a grid: it is not empty, and its coordinates are small enough
  for the sum of two of them to be an \<^verbatim>\<open>int\<close>.
\<close>

definition rect_ok :: "rect \<Rightarrow> bool" where
  "rect_ok r = (0 \<le> rX r \<and> 0 \<le> rY r \<and> 0 < rW r \<and> 0 < rH r
                \<and> rX r + rW r \<le> maxSide \<and> rY r + rH r \<le> maxSide)"

text \<open>Consecutive coordinates of a list are adjacent.\<close>

fun chain :: "Coordinate list \<Rightarrow> bool" where
  "chain (a # b # cs) = (adjacent a b \<and> chain (b # cs))"
| "chain cs = True"

text \<open>A route from \<open>src\<close> to \<open>dst\<close> inside the region \<open>r\<close>.\<close>

definition route_ok :: "rect \<Rightarrow> Coordinate \<Rightarrow> Coordinate \<Rightarrow> Coordinate list \<Rightarrow> bool" where
  "route_ok r src dst route =
     (route \<noteq> [] \<and> hd route = src \<and> last route = dst \<and> chain route
      \<and> list_all (rect_contains r) route)"

lemma small_is_int: "0 \<le> x \<Longrightarrow> x \<le> 2 * maxSide - 1 \<Longrightarrow> is_int x"
  by (simp add: is_int_def minInt_def maxInt_def maxSide_def)

lemma rect_contains_plain:
  assumes "rect_ok r"
  shows "rect_contains r c \<longleftrightarrow>
     rX r \<le> X c \<and> X c < rX r + rW r \<and> rY r \<le> Y c \<and> Y c < rY r + rH r"
proof -
  have "is_int (rX r + rW r)" "is_int (rY r + rH r)"
    using assms by (auto simp: rect_ok_def maxSide_def intro!: small_is_int)
  then show ?thesis by (simp add: rect_contains_def wrap_id)
qed

lemma chain_Cons: "chain (a # cs) \<longleftrightarrow> (cs = [] \<or> (adjacent a (hd cs) \<and> chain cs))"
  by (cases cs) simp_all

lemma chain_append:
  "chain (xs @ ys) \<longleftrightarrow>
     chain xs \<and> chain ys \<and> (xs \<noteq> [] \<and> ys \<noteq> [] \<longrightarrow> adjacent (last xs) (hd ys))"
  apply (induction xs rule: chain.induct)
    apply simp
   apply simp
  subgoal for v by (cases ys) auto
  done

lemma step_towards:
  assumes "rect_ok r" and "rect_contains r c" and "rect_contains r dst"
  shows "Y c < Y dst \<Longrightarrow> Down c = \<lparr>X = X c, Y = Y c + 1\<rparr>"
    and "Y dst < Y c \<Longrightarrow> Up c = \<lparr>X = X c, Y = Y c - 1\<rparr>"
    and "X c < X dst \<Longrightarrow> Coordinate_Right c = \<lparr>X = X c + 1, Y = Y c\<rparr>"
    and "X dst < X c \<Longrightarrow> Coordinate_Left c = \<lparr>X = X c - 1, Y = Y c\<rparr>"
proof -
  from assms have b: "0 \<le> X c" "X c < maxSide" "0 \<le> Y c" "Y c < maxSide"
    by (auto simp: rect_contains_plain rect_ok_def)
  have "is_int (Y c + 1)" "is_int (Y c - 1)" "is_int (X c + 1)" "is_int (X c - 1)"
    using b by (simp_all add: is_int_def minInt_def maxInt_def maxSide_def)
  then show "Y c < Y dst \<Longrightarrow> Down c = \<lparr>X = X c, Y = Y c + 1\<rparr>"
    and "Y dst < Y c \<Longrightarrow> Up c = \<lparr>X = X c, Y = Y c - 1\<rparr>"
    and "X c < X dst \<Longrightarrow> Coordinate_Right c = \<lparr>X = X c + 1, Y = Y c\<rparr>"
    and "X dst < X c \<Longrightarrow> Coordinate_Left c = \<lparr>X = X c - 1, Y = Y c\<rparr>"
    by (simp_all add: Down_def Up_def Coordinate_Right_def Coordinate_Left_def wrap_id)
qed

lemma Intn_2: "\<exists>k rs1. Intn 2 rs = Some (k, rs1)"
  by (simp add: Intn_def split: list.splits)

text \<open>The number of unit steps between two coordinates.\<close>

definition dist :: "Coordinate \<Rightarrow> Coordinate \<Rightarrow> nat" where
  "dist a b = nat (\<bar>X a - X b\<bar> + \<bar>Y a - Y b\<bar>)"

lemma naive_loop_ok:
  assumes "rect_ok r" and "rect_contains r c" and "rect_contains r dst"
  shows "\<exists>p rs'. naive_loop c dst ret rs = Some (ret @ p, rs') \<and> route_ok r c dst p"
  using assms(2)
proof (induction "dist c dst" arbitrary: c ret rs rule: less_induct)
  case less
  show ?case
  proof (cases "c = dst")
    case True
    then show ?thesis
      using less.prems by (subst naive_loop.simps) (simp add: route_ok_def)
  next
    case False
    obtain k rs1 where k: "Intn 2 rs = Some (k, rs1)" using Intn_2 by blast
    define dir where "dir = (if Y c = Y dst then 1 else if X c = X dst then 0 else k)"
    define c' where "c' = (if dir = 0 then (if Y c < Y dst then Down c else Up c)
                           else (if X c < X dst then Coordinate_Right c else Coordinate_Left c))"
    have unfold: "naive_loop c dst ret rs = naive_loop c' dst (ret @ [c]) rs1"
      using False k by (subst naive_loop.simps) (simp add: dir_def c'_def Let_def)
    have ne: "X c \<noteq> X dst \<or> Y c \<noteq> Y dst" using False by (cases c, cases dst) auto
    note st = step_towards [OF assms(1) less.prems assms(3)]
    have cin: "rX r \<le> X c \<and> X c < rX r + rW r \<and> rY r \<le> Y c \<and> Y c < rY r + rH r"
      and din: "rX r \<le> X dst \<and> X dst < rX r + rW r \<and> rY r \<le> Y dst \<and> Y dst < rY r + rH r"
      using less.prems assms(3) by (simp_all add: rect_contains_plain [OF assms(1)])
    have props: "rect_contains r c' \<and> adjacent c c' \<and> dist c' dst < dist c dst"
    proof (cases "dir = 0")
      case True
      then have y: "Y c \<noteq> Y dst" by (auto simp: dir_def split: if_splits)
      show ?thesis
      proof (cases "Y c < Y dst")
        case True
        with \<open>dir = 0\<close> st(1) have "c' = \<lparr>X = X c, Y = Y c + 1\<rparr>" by (simp add: c'_def)
        with True cin din show ?thesis
          by (simp add: rect_contains_plain [OF assms(1)] adjacent_def dist_def)
      next
        case False
        with y have "Y dst < Y c" by simp
        with \<open>dir = 0\<close> st(2) have "c' = \<lparr>X = X c, Y = Y c - 1\<rparr>" by (simp add: c'_def)
        with \<open>Y dst < Y c\<close> cin din show ?thesis
          by (simp add: rect_contains_plain [OF assms(1)] adjacent_def dist_def)
      qed
    next
      case False
      then have x: "X c \<noteq> X dst" using ne by (auto simp: dir_def split: if_splits)
      show ?thesis
      proof (cases "X c < X dst")
        case True
        with \<open>dir \<noteq> 0\<close> st(3) have "c' = \<lparr>X = X c + 1, Y = Y c\<rparr>" by (simp add: c'_def)
        with True cin din show ?thesis
          by (simp add: rect_contains_plain [OF assms(1)] adjacent_def dist_def)
      next
        case False
        with x have "X dst < X c" by simp
        with \<open>dir \<noteq> 0\<close> st(4) have "c' = \<lparr>X = X c - 1, Y = Y c\<rparr>" by (simp add: c'_def)
        with \<open>X dst < X c\<close> cin din show ?thesis
          by (simp add: rect_contains_plain [OF assms(1)] adjacent_def dist_def)
      qed
    qed
    from less.hyps [of c' "ret @ [c]" rs1] props
    obtain p rs' where p: "naive_loop c' dst (ret @ [c]) rs1 = Some ((ret @ [c]) @ p, rs')"
      "route_ok r c' dst p" by blast
    have "route_ok r c dst (c # p)"
      using p(2) props less.prems by (simp add: route_ok_def chain_Cons)
    with unfold p(1) show ?thesis by auto
  qed
qed

text \<open>
  What a cut that succeeds guarantees: two regions inside the cut one, each strictly
  smaller, the first with \<open>src\<close> and its connecting coordinate, the second with \<open>dst\<close>
  and its connecting coordinate, and the two connecting coordinates adjacent.
\<close>

definition good_cut :: "rect \<Rightarrow> Coordinate \<Rightarrow> Coordinate \<Rightarrow> cut_result \<Rightarrow> bool" where
  "good_cut r src dst res =
     (case res of (rsrc, csrc, rdst, cdst, ok) \<Rightarrow>
        ok \<longrightarrow>
          rect_ok rsrc \<and> rect_ok rdst
          \<and> rect_contains rsrc src \<and> rect_contains rsrc csrc
          \<and> rect_contains rdst cdst \<and> rect_contains rdst dst
          \<and> adjacent csrc cdst
          \<and> (\<forall>c. rect_contains rsrc c \<longrightarrow> rect_contains r c)
          \<and> (\<forall>c. rect_contains rdst c \<longrightarrow> rect_contains r c)
          \<and> rW rsrc + rH rsrc < rW r + rH r \<and> rW rdst + rH rdst < rW r + rH r)"

lemma quo_2: "0 \<le> a \<Longrightarrow> quo a 2 = a div 2"
  by (simp add: quo_def)

lemma midpoint:
  fixes s d :: int
  assumes "s \<noteq> d"
  shows "min s d < (s + d) div 2 + 1" and "(s + d) div 2 + 1 \<le> max s d"
  using assms by (auto simp: min_def max_def)

lemma Intn_pos: "0 < n \<Longrightarrow> \<exists>k rs1. Intn n rs = Some (k, rs1) \<and> 0 \<le> k \<and> k < n"
  by (auto simp: Intn_def split: list.splits)

text \<open>One axis of a cut: the piece below the line and the piece from the line on.\<close>

lemma split_axis:
  fixes lo len s d :: int
  assumes "0 \<le> lo" and "lo + len \<le> maxSide" and "lo \<le> s" and "s < lo + len"
    and "lo \<le> d" and "d < lo + len" and "s \<noteq> d"
  defines "cy \<equiv> (s + d) div 2 + 1"
  shows "wrap (quo (wrap (s + d)) 2 + 1) = cy"
    and "wrap (cy - lo) = cy - lo" and "wrap (len - (cy - lo)) = lo + len - cy"
    and "wrap (cy - 1) = cy - 1"
    and "lo < cy" and "cy < lo + len" and "min s d < cy" and "cy \<le> max s d"
proof -
  have m: "min s d < cy" "cy \<le> max s d" using midpoint [OF assms(7)] by (simp_all add: cy_def)
  show "min s d < cy" "cy \<le> max s d" by fact+
  from m assms show lo: "lo < cy" and hi: "cy < lo + len" by (auto simp: min_def max_def)
  have sd: "0 \<le> s + d" "s + d \<le> 2 * maxSide - 1" using assms by auto
  then have w1: "wrap (s + d) = s + d" by (intro wrap_id small_is_int)
  have "0 \<le> cy" "cy \<le> 2 * maxSide - 1" using lo hi assms(1,2) by (auto simp: maxSide_def)
  then have w2: "wrap cy = cy" by (intro wrap_id small_is_int)
  show "wrap (quo (wrap (s + d)) 2 + 1) = cy"
    using sd w2 by (simp add: w1 quo_2 cy_def)
  have "0 \<le> cy - lo" "cy - lo \<le> 2 * maxSide - 1" "0 \<le> lo + len - cy"
    "lo + len - cy \<le> 2 * maxSide - 1" "0 \<le> cy - 1" "cy - 1 \<le> 2 * maxSide - 1"
    using lo hi assms(1,2) by (auto simp: maxSide_def)
  then have "is_int (cy - lo)" "is_int (lo + len - cy)" "is_int (cy - 1)"
    by (auto intro: small_is_int)
  then show "wrap (cy - lo) = cy - lo" and "wrap (cy - 1) = cy - 1"
    and "wrap (len - (cy - lo)) = lo + len - cy"
    using wrap_id [of "lo + len - cy"] by (simp_all add: wrap_id algebra_simps)
qed

lemma crossing_fits:
  assumes "0 \<le> lo" and "lo + len \<le> maxSide" and "0 \<le> k \<and> k < len"
  shows "wrap (k + lo) = k + lo"
  using assms by (intro wrap_id small_is_int) (auto simp: maxSide_def)

lemma cuth_ok:
  assumes "rect_ok r" and "rect_contains r src" and "rect_contains r dst"
  shows "\<exists>res rs'. cuth r src dst rs = Some (res, rs') \<and> good_cut r src dst res"
proof (cases "Y src = Y dst \<or> rH r \<le> cutLimit")
  case True
  then show ?thesis by (simp add: cuth_def good_cut_def no_cut_def)
next
  case False
  have r: "0 \<le> rX r" "0 \<le> rY r" "0 < rW r" "0 < rH r" "rX r + rW r \<le> maxSide"
    "rY r + rH r \<le> maxSide"
    using assms(1) by (simp_all add: rect_ok_def)
  have s: "rX r \<le> X src" "X src < rX r + rW r" "rY r \<le> Y src" "Y src < rY r + rH r"
    and d: "rX r \<le> X dst" "X dst < rX r + rW r" "rY r \<le> Y dst" "Y dst < rY r + rH r"
    using assms by (simp_all add: rect_contains_plain)
  from False have ne: "Y src \<noteq> Y dst" by simp
  define cy where "cy = (Y src + Y dst) div 2 + 1"
  note ax = split_axis [OF r(2,6) s(3,4) d(3,4) ne, folded cy_def]
  obtain k1 rs1 where k1: "Intn (rW r) rs = Some (k1, rs1)" "0 \<le> k1 \<and> k1 < rW r"
    using Intn_pos [OF r(3)] by blast
  obtain k2 rs2 where k2: "Intn (rW r) rs1 = Some (k2, rs2)" "0 \<le> k2 \<and> k2 < rW r"
    using Intn_pos [OF r(3)] by blast
  define cx where "cx = (if k1 + rX r = X src \<or> k1 + rX r = X dst then k2 + rX r else k1 + rX r)"
  define rs' where "rs' = (if k1 + rX r = X src \<or> k1 + rX r = X dst then rs2 else rs1)"
  have cxr: "rX r \<le> cx" "cx < rX r + rW r" using k1(2) k2(2) by (auto simp: cx_def)
  define r1 where "r1 = \<lparr>rX = rX r, rY = rY r, rW = rW r, rH = cy - rY r\<rparr>"
  define r2 where "r2 = \<lparr>rX = rX r, rY = cy, rW = rW r, rH = rY r + rH r - cy\<rparr>"
  have ok1: "rect_ok r1" and ok2: "rect_ok r2"
    using r ax(5,6) by (simp_all add: rect_ok_def r1_def r2_def)
  have in1: "rect_contains r1 c \<longleftrightarrow> rX r \<le> X c \<and> X c < rX r + rW r \<and> rY r \<le> Y c \<and> Y c < cy" for c
    by (simp add: rect_contains_plain [OF ok1]) (simp add: r1_def)
  have in2: "rect_contains r2 c \<longleftrightarrow> rX r \<le> X c \<and> X c < rX r + rW r \<and> cy \<le> Y c \<and> Y c < rY r + rH r" for c
    by (simp add: rect_contains_plain [OF ok2]) (simp add: r2_def)
  have inr: "rect_contains r c \<longleftrightarrow> rX r \<le> X c \<and> X c < rX r + rW r \<and> rY r \<le> Y c \<and> Y c < rY r + rH r" for c
    by (rule rect_contains_plain [OF assms(1)])
  have res: "cuth r src dst rs =
      Some (if rect_contains r1 src
            then (r1, \<lparr>X = cx, Y = cy - 1\<rparr>, r2, \<lparr>X = cx, Y = cy\<rparr>, True)
            else (r2, \<lparr>X = cx, Y = cy\<rparr>, r1, \<lparr>X = cx, Y = cy - 1\<rparr>, True), rs')"
    using False k1 k2 crossing_fits [OF r(1,5) k1(2)] crossing_fits [OF r(1,5) k2(2)]
    by (simp add: cuth_def Let_def ax(1,2,3,4) NewCoordinate_def r1_def r2_def cx_def rs'_def)
  have sz: "rW r1 + rH r1 < rW r + rH r" "rW r2 + rH r2 < rW r + rH r"
    using ax(5,6) by (simp_all add: r1_def r2_def)
  have adj: "adjacent \<lparr>X = cx, Y = cy - 1\<rparr> \<lparr>X = cx, Y = cy\<rparr>"
    "adjacent \<lparr>X = cx, Y = cy\<rparr> \<lparr>X = cx, Y = cy - 1\<rparr>"
    by (simp_all add: adjacent_def)
  show ?thesis
  proof (cases "Y src < Y dst")
    case True
    with ax(7,8) have "Y src < cy" "cy \<le> Y dst" by (simp_all add: min_def max_def)
    with s d cxr ax(5,6) sz adj ok1 ok2 show ?thesis
      unfolding res good_cut_def by (simp add: in1 in2 inr)
  next
    case False
    with ne ax(7,8) have "Y dst < cy" "cy \<le> Y src" by (simp_all add: min_def max_def)
    with s d cxr ax(5,6) sz adj ok1 ok2 show ?thesis
      unfolding res good_cut_def by (simp add: in1 in2 inr)
  qed
qed

lemma cutv_ok:
  assumes "rect_ok r" and "rect_contains r src" and "rect_contains r dst"
  shows "\<exists>res rs'. cutv r src dst rs = Some (res, rs') \<and> good_cut r src dst res"
proof (cases "X src = X dst \<or> rW r \<le> cutLimit")
  case True
  then show ?thesis by (simp add: cutv_def good_cut_def no_cut_def)
next
  case False
  have r: "0 \<le> rX r" "0 \<le> rY r" "0 < rW r" "0 < rH r" "rX r + rW r \<le> maxSide"
    "rY r + rH r \<le> maxSide"
    using assms(1) by (simp_all add: rect_ok_def)
  have s: "rX r \<le> X src" "X src < rX r + rW r" "rY r \<le> Y src" "Y src < rY r + rH r"
    and d: "rX r \<le> X dst" "X dst < rX r + rW r" "rY r \<le> Y dst" "Y dst < rY r + rH r"
    using assms by (simp_all add: rect_contains_plain)
  from False have ne: "X src \<noteq> X dst" by simp
  define cx where "cx = (X src + X dst) div 2 + 1"
  note ax = split_axis [OF r(1,5) s(1,2) d(1,2) ne, folded cx_def]
  obtain k1 rs1 where k1: "Intn (rH r) rs = Some (k1, rs1)" "0 \<le> k1 \<and> k1 < rH r"
    using Intn_pos [OF r(4)] by blast
  obtain k2 rs2 where k2: "Intn (rH r) rs1 = Some (k2, rs2)" "0 \<le> k2 \<and> k2 < rH r"
    using Intn_pos [OF r(4)] by blast
  define cy where "cy = (if k1 + rY r = Y src \<or> k1 + rY r = Y dst then k2 + rY r else k1 + rY r)"
  define rs' where "rs' = (if k1 + rY r = Y src \<or> k1 + rY r = Y dst then rs2 else rs1)"
  have cyr: "rY r \<le> cy" "cy < rY r + rH r" using k1(2) k2(2) by (auto simp: cy_def)
  define r1 where "r1 = \<lparr>rX = rX r, rY = rY r, rW = cx - rX r, rH = rH r\<rparr>"
  define r2 where "r2 = \<lparr>rX = cx, rY = rY r, rW = rX r + rW r - cx, rH = rH r\<rparr>"
  have ok1: "rect_ok r1" and ok2: "rect_ok r2"
    using r ax(5,6) by (simp_all add: rect_ok_def r1_def r2_def)
  have in1: "rect_contains r1 c \<longleftrightarrow> rX r \<le> X c \<and> X c < cx \<and> rY r \<le> Y c \<and> Y c < rY r + rH r" for c
    by (simp add: rect_contains_plain [OF ok1]) (simp add: r1_def)
  have in2: "rect_contains r2 c \<longleftrightarrow> cx \<le> X c \<and> X c < rX r + rW r \<and> rY r \<le> Y c \<and> Y c < rY r + rH r" for c
    by (simp add: rect_contains_plain [OF ok2]) (simp add: r2_def)
  have inr: "rect_contains r c \<longleftrightarrow> rX r \<le> X c \<and> X c < rX r + rW r \<and> rY r \<le> Y c \<and> Y c < rY r + rH r" for c
    by (rule rect_contains_plain [OF assms(1)])
  have res: "cutv r src dst rs =
      Some (if rect_contains r1 src
            then (r1, \<lparr>X = cx - 1, Y = cy\<rparr>, r2, \<lparr>X = cx, Y = cy\<rparr>, True)
            else (r2, \<lparr>X = cx, Y = cy\<rparr>, r1, \<lparr>X = cx - 1, Y = cy\<rparr>, True), rs')"
    using False k1 k2 crossing_fits [OF r(2,6) k1(2)] crossing_fits [OF r(2,6) k2(2)]
    by (simp add: cutv_def Let_def ax(1,2,3,4) NewCoordinate_def r1_def r2_def cy_def rs'_def)
  have sz: "rW r1 + rH r1 < rW r + rH r" "rW r2 + rH r2 < rW r + rH r"
    using ax(5,6) by (simp_all add: r1_def r2_def)
  have adj: "adjacent \<lparr>X = cx - 1, Y = cy\<rparr> \<lparr>X = cx, Y = cy\<rparr>"
    "adjacent \<lparr>X = cx, Y = cy\<rparr> \<lparr>X = cx - 1, Y = cy\<rparr>"
    by (simp_all add: adjacent_def)
  show ?thesis
  proof (cases "X src < X dst")
    case True
    with ax(7,8) have "X src < cx" "cx \<le> X dst" by (simp_all add: min_def max_def)
    with s d cyr ax(5,6) sz adj ok1 ok2 show ?thesis
      unfolding res good_cut_def by (simp add: in1 in2 inr)
  next
    case False
    with ne ax(7,8) have "X dst < cx" "cx \<le> X src" by (simp_all add: min_def max_def)
    with s d cyr ax(5,6) sz adj ok1 ok2 show ?thesis
      unfolding res good_cut_def by (simp add: in1 in2 inr)
  qed
qed

lemma cut_ok:
  assumes "rect_ok r" and "rect_contains r src" and "rect_contains r dst"
  shows "\<exists>res rs'. cut r src dst rs = Some (res, rs') \<and> good_cut r src dst res"
proof -
  obtain h rs1 where h: "cuth r src dst rs = Some (h, rs1)" "good_cut r src dst h"
    using cuth_ok [OF assms] by blast
  obtain v rs2 where v: "cutv r src dst rs1 = Some (v, rs2)" "good_cut r src dst v"
    using cutv_ok [OF assms] by blast
  define x where "x = (if \<not> snd (snd (snd (snd h))) then v
                       else if \<not> snd (snd (snd (snd v))) then h
                       else if rW r > rH r then v else h)"
  have "cut r src dst rs = Some (x, rs2)" by (simp add: cut_def h(1) v(1) x_def)
  moreover have "good_cut r src dst x" using h(2) v(2) by (simp add: x_def)
  ultimately show ?thesis by blast
qed

lemma route_ok_mono:
  assumes "route_ok r' a b p" and "\<forall>c. rect_contains r' c \<longrightarrow> rect_contains r c"
  shows "list_all (rect_contains r) p"
  using assms by (auto simp: route_ok_def list_all_iff)

lemma findRoute_ok:
  assumes "rect_ok r" and "rect_contains r src" and "rect_contains r dst"
  shows "\<exists>route rs'. findRoute r src dst rs = Some (route, rs') \<and> route_ok r src dst route"
  using assms
proof (induction "nat (rW r + rH r)" arbitrary: r src dst rs rule: less_induct)
  case less
  obtain res rs1 where c: "cut r src dst rs = Some (res, rs1)" and g: "good_cut r src dst res"
    using cut_ok [OF less.prems] by blast
  obtain rsrc csrc rdst cdst ok where res: "res = (rsrc, csrc, rdst, cdst, ok)"
    by (cases res) auto
  show ?case
  proof (cases ok)
    case False
    have "findRoute r src dst rs = naive_loop src dst [] rs1"
      using c res False by (subst findRoute.simps) (simp add: findNaiveRoute_def)
    with naive_loop_ok [OF less.prems, of "[]" rs1] show ?thesis by simp
  next
    case True
    with g res have gc: "rect_ok rsrc" "rect_ok rdst" "rect_contains rsrc src"
      "rect_contains rsrc csrc" "rect_contains rdst cdst" "rect_contains rdst dst"
      "adjacent csrc cdst" "\<forall>c. rect_contains rsrc c \<longrightarrow> rect_contains r c"
      "\<forall>c. rect_contains rdst c \<longrightarrow> rect_contains r c"
      "rW rsrc + rH rsrc < rW r + rH r" "rW rdst + rH rdst < rW r + rH r"
      by (simp_all add: good_cut_def)
    have pos: "0 < rW r + rH r" using less.prems(1) by (simp add: rect_ok_def)
    have lt1: "nat (rW rsrc + rH rsrc) < nat (rW r + rH r)"
      and lt2: "nat (rW rdst + rH rdst) < nat (rW r + rH r)"
      using gc(10,11) pos by simp_all
    obtain p1 rs2 where p1: "findRoute rsrc src csrc rs1 = Some (p1, rs2)"
      "route_ok rsrc src csrc p1"
      using less.hyps [OF lt1 gc(1,3,4)] by blast
    obtain p2 rs3 where p2: "findRoute rdst cdst dst rs2 = Some (p2, rs3)"
      "route_ok rdst cdst dst p2"
      using less.hyps [OF lt2 gc(2,5,6)] by blast
    have eq: "findRoute r src dst rs = Some (p1 @ p2, rs3)"
      using c res True p1(1) p2(1) by (subst findRoute.simps) simp
    have "route_ok r src dst (p1 @ p2)"
      using p1(2) p2(2) gc(7) route_ok_mono [OF p1(2) gc(8)] route_ok_mono [OF p2(2) gc(9)]
      by (simp add: route_ok_def chain_append)
    with eq show ?thesis by blast
  qed
qed

subsection \<open>Paving and flood fill keep the invariants\<close>

text \<open>A coordinate of the grid of width \<open>w\<close> and height \<open>h\<close>.\<close>

definition in_grid :: "int \<Rightarrow> int \<Rightarrow> Coordinate \<Rightarrow> bool" where
  "in_grid w h c = (0 \<le> X c \<and> X c < w \<and> 0 \<le> Y c \<and> Y c < h)"

text \<open>
  The invariant of the generation: a rectangular maze of the given size whose walls are
  symmetric and whose outer sides are all walled.
\<close>

definition good_maze :: "int \<Rightarrow> int \<Rightarrow> Maze \<Rightarrow> bool" where
  "good_maze w h m =
     (wf_maze m \<and> Width m = w \<and> Height m = h \<and> sym_walls m \<and> outer_walls m)"

lemma good_contains: "good_maze w h m \<Longrightarrow> Maze_contains m c = in_grid w h c"
  by (auto simp: good_maze_def Maze_contains_def in_grid_def)

lemma sealRoom_good:
  assumes "good_maze w h m" and "in_grid w h c"
  shows "good_maze w h (sealRoom m c)"
proof -
  have wf: "wf_maze m" and c: "Maze_contains m c"
    using assms good_contains [OF assms(1)] by (simp_all add: good_maze_def)
  from sealRoom_inv [OF wf c] assms(1) show ?thesis by (simp add: good_maze_def)
qed

lemma removeWallBetween_good:
  assumes "good_maze w h m" and "in_grid w h c1" and "in_grid w h c2" and "adjacent c1 c2"
  shows "good_maze w h (removeWallBetween m c1 c2)"
proof -
  have wf: "wf_maze m" and c: "Maze_contains m c1" "Maze_contains m c2"
    using assms good_contains [OF assms(1)] by (simp_all add: good_maze_def)
  from removeWallBetween_inv [OF wf c assms(4)] removeWallBetween_size [OF wf, of c1 c2] assms(1)
  show ?thesis by (simp add: good_maze_def)
qed

lemma fold_sealRoom_good:
  assumes "good_maze w h m" and "list_all (in_grid w h) cs"
  shows "good_maze w h (fold (\<lambda>c m. sealRoom m c) cs m)"
  using assms by (induction cs arbitrary: m) (simp_all add: sealRoom_good)

lemma pave_open_good:
  assumes "good_maze w h m" and "list_all (in_grid w h) cs" and "chain cs"
  shows "good_maze w h (pave_open m cs)"
  using assms
proof (induction m cs rule: pave_open.induct)
  case (1 m a b cs)
  from "1.prems" have "good_maze w h (removeWallBetween m b a)"
    by (intro removeWallBetween_good) (simp_all add: adjacent_sym)
  with "1.prems" "1.IH" show ?case by simp
qed simp_all

lemma paveRoute_good:
  assumes "good_maze w h m" and "list_all (in_grid w h) route" and "chain route"
  shows "good_maze w h (paveRoute m route)"
  unfolding paveRoute_def
  by (intro pave_open_good fold_sealRoom_good assms)

paragraph \<open>Loops\<close>

lemma foreach_inv:
  assumes "I s"
    and "\<And>x s. x \<in> set xs \<Longrightarrow> I s \<Longrightarrow> \<exists>s'. body x s = Some s' \<and> I s'"
  shows "\<exists>s'. foreach xs body s = Some s' \<and> I s'"
  using assms
proof (induction xs arbitrary: s)
  case Nil
  then show ?case by simp
next
  case (Cons x xs)
  from Cons.prems(2) [of x s] Cons.prems(1)
  obtain s1 where s1: "body x s = Some s1" "I s1" by auto
  from Cons.IH [OF s1(2)] Cons.prems(2)
  obtain s' where "foreach xs body s1 = Some s'" "I s'" by auto
  with s1 show ?case by simp
qed

paragraph \<open>Flood fill\<close>

lemma finite_grid: "finite {c. in_grid w h c}"
proof -
  have "{c. in_grid w h c} \<subseteq> (\<lambda>(x, y). \<lparr>X = x, Y = y\<rparr>) ` ({0..<w} \<times> {0..<h})"
  proof
    fix c assume "c \<in> {c. in_grid w h c}"
    then have "(X c, Y c) \<in> {0..<w} \<times> {0..<h}" by (simp add: in_grid_def)
    then have "(\<lambda>(x, y). \<lparr>X = x, Y = y\<rparr>) (X c, Y c) \<in> (\<lambda>(x, y). \<lparr>X = x, Y = y\<rparr>) ` ({0..<w} \<times> {0..<h})"
      by (rule imageI)
    then show "c \<in> (\<lambda>(x, y). \<lparr>X = x, Y = y\<rparr>) ` ({0..<w} \<times> {0..<h})" by simp
  qed
  then show ?thesis by (rule finite_subset) simp
qed

text \<open>The coordinates of the grid that the map \<^verbatim>\<open>explored\<close> does not hold yet.\<close>

definition unexplored :: "int \<Rightarrow> int \<Rightarrow> Coordinate set \<Rightarrow> Coordinate set" where
  "unexplored w h e = {c. in_grid w h c \<and> c \<notin> e}"

lemma unexplored_less:
  assumes "in_grid w h c" and "c \<notin> e" and "insert c e \<subseteq> e'"
  shows "card (unexplored w h e') < card (unexplored w h e)"
proof -
  have f: "finite (unexplored w h e)"
    using finite_grid [of w h] by (rule rev_finite_subset) (auto simp: unexplored_def)
  have "unexplored w h e' \<subset> unexplored w h e"
    using assms by (auto simp: unexplored_def)
  with f show ?thesis by (rule psubset_card_mono)
qed

lemma Neighbors_alt: "Neighbors c = [Neighbor c N, Neighbor c S, Neighbor c W, Neighbor c E]"
  by (simp add: Neighbors_def Neighbor_def dir_defs)

lemma Neighbors_adjacent:
  assumes "good_maze w h m" and "in_grid w h c" and "nb \<in> set (Neighbors c)" and "in_grid w h nb"
  shows "adjacent nb c"
proof -
  have wf: "wf_maze m" and c: "Maze_contains m c" and n: "Maze_contains m nb"
    using assms good_contains [OF assms(1)] by (simp_all add: good_maze_def)
  from assms(3) have "nb = Neighbor c N \<or> nb = Neighbor c S \<or> nb = Neighbor c W \<or> nb = Neighbor c E"
    by (simp add: Neighbors_alt)
  then obtain d where d: "is_dir d" "nb = Neighbor c d"
    using is_dir_simps by blast
  from Neighbor_back(5) [OF wf c d(1)] n d(2) show ?thesis by (simp add: adjacent_sym)
qed

lemma visit_ok:
  assumes step: "\<And>nb s. in_grid w h nb \<Longrightarrow> nb \<notin> snd s \<Longrightarrow> adjacent nb c \<Longrightarrow>
            good_maze w h (fst s) \<and> K \<subseteq> snd s \<Longrightarrow>
            \<exists>s'. floodfill nb c s = Some s' \<and> good_maze w h (fst s') \<and> K \<subseteq> snd s'"
    and "good_maze w h (fst s0) \<and> K \<subseteq> snd s0" and "in_grid w h c"
  shows "\<exists>s'. foreach (Neighbors c)
            (\<lambda>nb s. if Maze_contains (fst s) nb \<and> nb \<notin> snd s then floodfill nb c s else Some s)
            s0 = Some s' \<and> good_maze w h (fst s') \<and> K \<subseteq> snd s'"
proof (rule foreach_inv [where I = "\<lambda>s. good_maze w h (fst s) \<and> K \<subseteq> snd s", OF assms(2)])
  fix nb s
  assume nb: "nb \<in> set (Neighbors c)" and I: "good_maze w h (fst s) \<and> K \<subseteq> snd s"
  show "\<exists>s'. (if Maze_contains (fst s) nb \<and> nb \<notin> snd s then floodfill nb c s else Some s)
          = Some s' \<and> good_maze w h (fst s') \<and> K \<subseteq> snd s'"
  proof (cases "Maze_contains (fst s) nb \<and> nb \<notin> snd s")
    case False
    then have "(if Maze_contains (fst s) nb \<and> nb \<notin> snd s then floodfill nb c s else Some s)
        = Some s" by (rule if_not_P)
    with I show ?thesis by blast
  next
    case True
    then have g: "in_grid w h nb" using good_contains [of w h "fst s"] I by simp
    have "adjacent nb c" using Neighbors_adjacent [OF _ assms(3) nb g] I by blast
    from True have "(if Maze_contains (fst s) nb \<and> nb \<notin> snd s then floodfill nb c s else Some s)
        = floodfill nb c s" by (rule if_P)
    with step [OF g _ \<open>adjacent nb c\<close> I] True show ?thesis by (simp only:) blast
  qed
qed

text \<open>
  The flood fill returns, whatever the maze: every call stores a coordinate of the grid
  that was not explored before, so the number of unexplored coordinates bounds the depth of
  the recursion.
\<close>

lemma floodfill_ok:
  assumes "good_maze w h m" and "in_grid w h c" and "c \<notin> e" and "in_grid w h from"
    and "adjacent c from"
  shows "\<exists>s'. floodfill c from (m, e) = Some s' \<and> good_maze w h (fst s') \<and> insert c e \<subseteq> snd s'"
  using assms
proof (induction "card (unexplored w h e)" arbitrary: c "from" m e rule: less_induct)
  case less
  define s0 where "s0 = (removeWallBetween (sealRoom m c) c from, insert c e)"
  have "good_maze w h (sealRoom m c)"
    using less.prems(1,2) by (rule sealRoom_good)
  then have "good_maze w h (removeWallBetween (sealRoom m c) c from)"
    using less.prems(2,4,5) by (rule removeWallBetween_good)
  then have g0: "good_maze w h (fst s0) \<and> insert c e \<subseteq> snd s0"
    by (simp add: s0_def)
  have step: "\<exists>s'. floodfill nb c s = Some s' \<and> good_maze w h (fst s') \<and> insert c e \<subseteq> snd s'"
    if "in_grid w h nb" "nb \<notin> snd s" "adjacent nb c" "good_maze w h (fst s) \<and> insert c e \<subseteq> snd s"
    for nb s
  proof -
    have sub: "insert c e \<subseteq> snd s" and gs: "good_maze w h (fst s)" using that(4) by blast+
    have lt: "card (unexplored w h (snd s)) < card (unexplored w h e)"
      using unexplored_less [OF less.prems(2,3) sub] .
    from less.hyps [OF lt gs that(1,2) less.prems(2) that(3)]
    obtain s' where s': "floodfill nb c (fst s, snd s) = Some s'" "good_maze w h (fst s')"
      "insert nb (snd s) \<subseteq> snd s'" by blast
    from s'(3) sub have "insert c e \<subseteq> snd s'" by blast
    with s'(1,2) show ?thesis by (intro exI [of _ s']) simp
  qed
  from visit_ok [where K = "insert c e", OF step g0 less.prems(2)]
  obtain s' where s': "foreach (Neighbors c)
            (\<lambda>nb s. if Maze_contains (fst s) nb \<and> nb \<notin> snd s then floodfill nb c s else Some s)
            s0 = Some s'" "good_maze w h (fst s')" "insert c e \<subseteq> snd s'"
    by blast
  have "floodfill c from (m, e) = Some s'"
    by (subst floodfill.simps) (simp only: fst_conv snd_conv s'(1) [unfolded s0_def])
  with s'(2,3) show ?case by blast
qed

subsection \<open>Building and creating\<close>

lemma toRect_grid:
  assumes "good_maze w h m" and "0 < w" and "w \<le> maxSide" and "0 < h" and "h \<le> maxSide"
  shows "rect_ok (toRect m)" and "rect_contains (toRect m) c = in_grid w h c"
proof -
  have t: "toRect m = \<lparr>rX = 0, rY = 0, rW = w, rH = h\<rparr>"
    using assms(1) by (simp add: toRect_def good_maze_def)
  show ok: "rect_ok (toRect m)" using assms(2-5) by (simp add: t rect_ok_def)
  show "rect_contains (toRect m) c = in_grid w h c"
    unfolding rect_contains_plain [OF ok] by (simp add: t in_grid_def)
qed

lemma Perm_bound: "idx \<in> set (fst (Perm n rs)) \<Longrightarrow> idx < n"
  using Perm_is_perm [of n rs] by (simp add: is_perm_set)

text \<open>Inside a grid \<^verbatim>\<open>buildMaze\<close> returns, and keeps the invariant.\<close>

lemma buildMaze_ok:
  assumes "good_maze w h m" and "0 < w" and "w \<le> maxSide" and "0 < h" and "h \<le> maxSide"
    and "in_grid w h src" and "in_grid w h dst"
  shows "\<exists>m' rs'. buildMaze m src dst rs = Some (m', rs') \<and> good_maze w h m'"
proof -
  note tr = toRect_grid [OF assms(1-5)]
  obtain route rs1 where r: "findRoute (toRect m) src dst rs = Some (route, rs1)"
    "route_ok (toRect m) src dst route"
    using findRoute_ok [OF tr(1)] assms(6,7) tr(2) by blast
  have ne: "route \<noteq> []" and ch: "chain route" and ing: "list_all (in_grid w h) route"
    using r(2) tr(2) by (simp_all add: route_ok_def list_all_iff)
  define n where "n = length route - 1"
  have n: "int (length route) - 1 = int n" using ne by (cases route) (simp_all add: n_def)
  obtain order rs2 where p: "Perm n rs1 = (order, rs2)" by (cases "Perm n rs1")
  have pi: "Perm_int (int (length route) - 1) rs1 = Some (order, rs2)"
    by (simp add: Perm_int_def n p)
  have ord: "idx < length route" if "idx \<in> set order" for idx
    using Perm_bound [of idx n rs1] that p ne by (cases route) (simp_all add: n_def)
  define body where "body = (\<lambda>idx s.
                 if idx \<ge> length route then None
                 else foreach (Neighbors (route ! idx))
                        (\<lambda>nb s. if Maze_contains (fst s) nb \<and> nb \<notin> snd s
                                then floodfill nb (route ! idx) s else Some s)
                        s)"
  define s0 where "s0 = (paveRoute m route, set route)"
  have g0: "good_maze w h (fst s0)"
    using paveRoute_good [OF assms(1) ing ch] by (simp add: s0_def)
  have "\<exists>s'. foreach order body s0 = Some s' \<and> good_maze w h (fst s')"
  proof (rule foreach_inv [where I = "\<lambda>s. good_maze w h (fst s)", OF g0])
    fix idx and s :: fill
    assume idx: "idx \<in> set order" and g: "good_maze w h (fst s)"
    have lt: "idx < length route" using ord [OF idx] .
    then have c: "in_grid w h (route ! idx)" using ing by (simp add: list_all_length)
    have step: "\<exists>s'. floodfill nb (route ! idx) s = Some s' \<and> good_maze w h (fst s') \<and> {} \<subseteq> snd s'"
      if "in_grid w h nb" "nb \<notin> snd s" "adjacent nb (route ! idx)"
        "good_maze w h (fst s) \<and> {} \<subseteq> snd s" for nb s
    proof -
      from floodfill_ok [OF _ that(1,2) c that(3), of "fst s"] that(4)
      obtain s' where "floodfill nb (route ! idx) (fst s, snd s) = Some s'" "good_maze w h (fst s')"
        by blast
      then show ?thesis by (intro exI [of _ s']) simp
    qed
    from visit_ok [where K = "{}" and ?s0.0 = s, OF step _ c] g
    obtain s' where "foreach (Neighbors (route ! idx))
            (\<lambda>nb s. if Maze_contains (fst s) nb \<and> nb \<notin> snd s
                    then floodfill nb (route ! idx) s else Some s) s = Some s'"
      "good_maze w h (fst s')" by auto
    then show "\<exists>s'. body idx s = Some s' \<and> good_maze w h (fst s')"
      using lt by (simp add: body_def)
  qed
  then obtain s' where s': "foreach order body s0 = Some s'" "good_maze w h (fst s')" by blast
  have "buildMaze m src dst rs = Some (fst s', rs2)"
    unfolding buildMaze_def using r(1) pi s'(1) [unfolded body_def s0_def] by simp
  with s'(2) show ?thesis by blast
qed

lemma redraw_range_aux:
  assumes "redraw m sx sy dx dy rs = Some res"
  shows "0 \<le> dx \<and> dx < Width m \<and> 0 \<le> dy \<and> dy < Height m \<longrightarrow>
         0 \<le> fst (fst res) \<and> fst (fst res) < Width m
         \<and> 0 \<le> snd (fst res) \<and> snd (fst res) < Height m"
proof (rule redraw.raw_induct [where P = "\<lambda>m sx sy dx dy rs res.
         0 \<le> dx \<and> dx < Width m \<and> 0 \<le> dy \<and> dy < Height m \<longrightarrow>
         0 \<le> fst (fst res) \<and> fst (fst res) < Width m
         \<and> 0 \<le> snd (fst res) \<and> snd (fst res) < Height m"])
  show "redraw m sx sy dx dy rs = Some res" by (rule assms)
next
  fix rd m sx sy dx dy rs res
  assume IH: "\<And>m sx sy dx dy rs res. rd m sx sy dx dy rs = Some res \<Longrightarrow>
         0 \<le> dx \<and> dx < Width m \<and> 0 \<le> dy \<and> dy < Height m \<longrightarrow>
         0 \<le> fst (fst res) \<and> fst (fst res) < Width m
         \<and> 0 \<le> snd (fst res) \<and> snd (fst res) < Height m"
    and eq: "(if dx = sx \<and> dy = sy then
        do {
          (dx', rs1) \<leftarrow> Intn (Width m) rs;
          (dy', rs2) \<leftarrow> Intn (Height m) rs1;
          rd m sx sy dx' dy' rs2
        }
      else Some ((dx, dy), rs)) = Some res"
  show "0 \<le> dx \<and> dx < Width m \<and> 0 \<le> dy \<and> dy < Height m \<longrightarrow>
         0 \<le> fst (fst res) \<and> fst (fst res) < Width m
         \<and> 0 \<le> snd (fst res) \<and> snd (fst res) < Height m"
  proof (cases "dx = sx \<and> dy = sy")
    case False
    with eq show ?thesis by auto
  next
    case True
    with eq obtain dx' rs1 dy' rs2 where
      d: "Intn (Width m) rs = Some (dx', rs1)" "Intn (Height m) rs1 = Some (dy', rs2)"
        "rd m sx sy dx' dy' rs2 = Some res"
      by (auto simp: bind_eq_Some_conv)
    from IH [OF d(3)] Intn_range [OF d(1)] Intn_range [OF d(2)] show ?thesis by simp
  qed
qed

text \<open>
  What \<^verbatim>\<open>createMaze\<close> hands to \<^verbatim>\<open>buildMaze\<close>: once the start and the treasure are drawn,
  the maze with its boundary is a grid of the requested size with symmetric walls and walled
  outer sides, and the start and the treasure are rooms of it.
\<close>

lemma placed_ok:
  assumes e: "emptyMaze xSize ySize = Some m0"
    and x: "0 < xSize" and y: "0 < ySize"
    and i: "Intn (Width m0) rs = Some (sx, rs1)" "Intn (Height m0) rs1 = Some (sy, rs2)"
      "Intn (Width m0) rs2 = Some (dx0, rs3)" "Intn (Height m0) rs3 = Some (dy0, rs4)"
    and rd: "redraw m0 sx sy dx0 dy0 rs4 = Some ((dx, dy), rs5)"
  shows "good_maze xSize ySize (addBoundary (snd (SetTreasure (snd (SetStartPoint m0 sx sy)) dx dy)))"
    and "in_grid xSize ySize (NewCoordinate sx sy)"
    and "in_grid xSize ySize (NewCoordinate dx dy)"
    and "xSize \<le> maxSide" and "ySize \<le> maxSide"
proof -
  from e y show side: "xSize \<le> maxSide" "ySize \<le> maxSide"
    by (auto simp: emptyMaze_def split: if_splits)
  have mx: "xSize \<le> maxInt" "ySize \<le> maxInt"
    using side by (simp_all add: maxSide_def maxInt_def)
  note em = emptyMaze_wf [OF e x y mx]
  let ?m1 = "snd (SetStartPoint m0 sx sy)"
  let ?m2 = "snd (SetTreasure ?m1 dx dy)"
  let ?m3 = "addBoundary ?m2"
  note s1 = SetStartPoint_walls [OF em(1), where x = sx and y = sy]
  have wf1: "wf_maze ?m1" using s1(1) by simp
  note s2 = SetTreasure_walls [OF wf1, where x = dx and y = dy]
  have wf2: "wf_maze ?m2" using s2(1) by simp
  have c1: "Maze_contains ?m1 a = Maze_contains m0 a" for a
    using s1(1) by (simp add: Maze_contains_def)
  have c2: "Maze_contains ?m2 a = Maze_contains m0 a" for a
    using s2(1) s1(1) by (simp add: Maze_contains_def)
  have nowall: "\<not> wall ?m2 a d" if "Maze_contains m0 a" for a d
    using s2(2) [where a = a and d = d] s1(2) [OF that, where d = d] em(4) [OF that] that c1
    by (simp add: wall_def HasWall_def Room0_def Survey0_def)
  have sym2: "sym_walls ?m2"
    unfolding sym_walls_def using nowall c2 by simp
  note ab = addBoundary_walls(1) [OF wf2] addBoundary_inv [OF wf2]
  show "good_maze xSize ySize ?m3"
    using ab sym2 s2(1) s1(1) em(2,3) by (simp add: good_maze_def)
  show "in_grid xSize ySize (NewCoordinate sx sy)"
    using Intn_range [OF i(1)] Intn_range [OF i(2)] em(2,3)
    by (simp add: in_grid_def NewCoordinate_def)
  have "0 \<le> dx \<and> dx < Width m0 \<and> 0 \<le> dy \<and> dy < Height m0"
    using redraw_range_aux [OF rd] Intn_range [OF i(3)] Intn_range [OF i(4)] by simp
  then show "in_grid xSize ySize (NewCoordinate dx dy)"
    using em(2,3) by (simp add: in_grid_def NewCoordinate_def)
qed

text \<open>Every maze that \<^verbatim>\<open>createMaze\<close> returns is a grid of the requested size that keeps
  the invariant.\<close>

lemma createMaze_ok:
  assumes "createMaze xSize ySize rs = Some (m, rs')"
  shows "good_maze xSize ySize m \<and> 0 < xSize \<and> 0 < ySize"
proof -
  from assms(1) obtain m0 sx rs1 sy rs2 dx0 rs3 dy0 rs4 dx dy rs5 where
    e: "emptyMaze xSize ySize = Some m0" "rooms m0 \<noteq> []"
    and i: "Intn (Width m0) rs = Some (sx, rs1)" "Intn (Height m0) rs1 = Some (sy, rs2)"
      "Intn (Width m0) rs2 = Some (dx0, rs3)" "Intn (Height m0) rs3 = Some (dy0, rs4)"
    and rd: "redraw m0 sx sy dx0 dy0 rs4 = Some ((dx, dy), rs5)"
    and b: "buildMaze (addBoundary (snd (SetTreasure (snd (SetStartPoint m0 sx sy)) dx dy)))
        (NewCoordinate sx sy) (NewCoordinate dx dy) rs5 = Some (m, rs')"
    by (auto simp: createMaze_def bind_eq_Some_conv Let_def split: if_splits)
  from e have y: "0 < ySize" and x0: "0 \<le> xSize"
    by (auto simp: emptyMaze_def split: if_splits)
  from e x0 y have W0: "Width m0 = xSize"
    by (cases "nat ySize") (auto simp: emptyMaze_def Width_def split: if_splits)
  from i(1) W0 have x: "0 < xSize" using Intn_range [OF i(1)] by simp
  note p = placed_ok [OF e(1) x y i rd]
  from buildMaze_ok [OF p(1) x p(4) y p(5) p(2,3), of rs5] b
  show ?thesis using x y by auto
qed

text \<open>
  \<^verbatim>\<open>createMaze\<close> returns: on a grid whose sides are positive and that \<^verbatim>\<open>make\<close> can
  allocate, once the loop that draws the treasure away from the start has ended, nothing
  panics and no other loop runs forever.
\<close>

lemma createMaze_returns:
  assumes x: "0 < xSize" "xSize \<le> maxSide" and y: "0 < ySize" "ySize \<le> maxSide"
    and e: "emptyMaze xSize ySize = Some m0"
    and i: "Intn (Width m0) rs = Some (sx, rs1)" "Intn (Height m0) rs1 = Some (sy, rs2)"
      "Intn (Width m0) rs2 = Some (dx0, rs3)" "Intn (Height m0) rs3 = Some (dy0, rs4)"
    and rd: "redraw m0 sx sy dx0 dy0 rs4 = Some (d, rs5)"
  shows "\<exists>m rs'. createMaze xSize ySize rs = Some (m, rs') \<and> good_maze xSize ySize m"
proof -
  obtain dx dy where d: "d = (dx, dy)" by (cases d)
  note rd' = rd [unfolded d]
  note p = placed_ok [OF e x(1) y(1) i rd']
  from buildMaze_ok [OF p(1) x y p(2,3), of rs5] obtain m rs' where
    b: "buildMaze (addBoundary (snd (SetTreasure (snd (SetStartPoint m0 sx sy)) dx dy)))
        (NewCoordinate sx sy) (NewCoordinate dx dy) rs5 = Some (m, rs')"
    and g: "good_maze xSize ySize m" by blast
  from e y(1) have ne: "rooms m0 \<noteq> []"
    by (auto simp: emptyMaze_def split: if_splits)
  have "createMaze xSize ySize rs = Some (m, rs')"
    unfolding createMaze_def using e ne i rd' b by (simp add: Let_def)
  with g show ?thesis by blast
qed

text \<open>The loop ends at once when the treasure is first drawn away from the start.\<close>

lemma redraw_at_once:
  "dx \<noteq> sx \<or> dy \<noteq> sy \<Longrightarrow> redraw m sx sy dx dy rs = Some ((dx, dy), rs)"
  by (subst redraw.simps) auto

subsection \<open>The two properties of a created maze\<close>

text \<open>
  Boundary sealing: every room of row \<open>0\<close> has a North wall, every room of the last row a
  South wall, every room of column \<open>0\<close> a West wall and every room of the last column an
  East wall.
\<close>

definition boundary_sealed :: "Maze \<Rightarrow> bool" where
  "boundary_sealed m =
     ((\<forall>x. 0 \<le> x \<and> x < Width m \<longrightarrow>
          Top (Walls (room m \<lparr>X = x, Y = 0\<rparr>))
          \<and> Bottom (Walls (room m \<lparr>X = x, Y = Height m - 1\<rparr>)))
      \<and> (\<forall>y. 0 \<le> y \<and> y < Height m \<longrightarrow>
          Left (Walls (room m \<lparr>X = 0, Y = y\<rparr>))
          \<and> Right (Walls (room m \<lparr>X = Width m - 1, Y = y\<rparr>))))"

text \<open>
  Wall symmetry: for every pair of rooms \<open>a\<close> and \<open>b\<close> that are adjacent in the grid, \<open>a\<close>
  has a wall facing \<open>b\<close> exactly if \<open>b\<close> has a wall facing \<open>a\<close>.
\<close>

definition wall_symmetric :: "Maze \<Rightarrow> bool" where
  "wall_symmetric m =
     (\<forall>a b. Maze_contains m a \<and> Maze_contains m b \<and> adjacent a b
        \<longrightarrow> wall m a (GetDir a b) = wall m b (GetDir b a))"

lemma outer_boundary:
  assumes "wf_maze m" and "outer_walls m" and "0 < Width m"
  shows "boundary_sealed m"
proof -
  have o: "wall m c d" if "Maze_contains m c" "on_edge m c d" "is_dir d" for c d
    using assms(2) that on_edge_iff [OF assms(1) that(1,3)] by (simp add: outer_walls_def)
  have t: "wall m c N = Top (Walls (room m c))" "wall m c S = Bottom (Walls (room m c))"
    "wall m c W = Left (Walls (room m c))" "wall m c E = Right (Walls (room m c))" for c
    by (simp_all add: wall_def HasWall_def dir_defs)
  show ?thesis
    unfolding boundary_sealed_def
  proof (intro conjI allI impI)
    fix x assume x: "0 \<le> x \<and> x < Width m"
    then have c: "Maze_contains m \<lparr>X = x, Y = 0\<rparr>" "Maze_contains m \<lparr>X = x, Y = Height m - 1\<rparr>"
      using assms(1) by (auto simp: Maze_contains_def wf_maze_def Height_def)
    from o [OF c(1), of N] show "Top (Walls (room m \<lparr>X = x, Y = 0\<rparr>))"
      by (simp add: t [symmetric] on_edge_def)
    from o [OF c(2), of S] show "Bottom (Walls (room m \<lparr>X = x, Y = Height m - 1\<rparr>))"
      by (simp add: t [symmetric] on_edge_def)
  next
    fix y assume y: "0 \<le> y \<and> y < Height m"
    with assms(3) have c: "Maze_contains m \<lparr>X = 0, Y = y\<rparr>" "Maze_contains m \<lparr>X = Width m - 1, Y = y\<rparr>"
      by (auto simp: Maze_contains_def)
    from o [OF c(1), of W] show "Left (Walls (room m \<lparr>X = 0, Y = y\<rparr>))"
      by (simp add: t [symmetric] on_edge_def)
    from o [OF c(2), of E] show "Right (Walls (room m \<lparr>X = Width m - 1, Y = y\<rparr>))"
      by (simp add: t [symmetric] on_edge_def)
  qed
qed

lemma sym_walls_iff:
  assumes "wf_maze m"
  shows "sym_walls m \<longleftrightarrow> wall_symmetric m"
proof
  assume s: "sym_walls m"
  show "wall_symmetric m"
    unfolding wall_symmetric_def
  proof (intro allI impI)
    fix a b
    assume h: "Maze_contains m a \<and> Maze_contains m b \<and> adjacent a b"
    then have d: "is_dir (GetDir a b)" "Neighbor a (GetDir a b) = b"
      using adjacent_Neighbor [OF assms, of a b] by simp_all
    have "GetDir b a = ReverseDirection (GetDir a b)"
      using Neighbor_back(4) [OF assms _ d(1), of a] h d(2) by simp
    with s h d show "wall m a (GetDir a b) = wall m b (GetDir b a)"
      by (auto simp: sym_walls_def)
  qed
next
  assume w: "wall_symmetric m"
  show "sym_walls m"
    unfolding sym_walls_def
  proof (intro allI impI)
    fix c d
    assume h: "Maze_contains m c \<and> is_dir d \<and> Maze_contains m (Neighbor c d)"
    then have nb: "adjacent c (Neighbor c d)" "GetDir c (Neighbor c d) = d"
      "GetDir (Neighbor c d) c = ReverseDirection d"
      using Neighbor_back [OF assms, of c d] by simp_all
    from w h nb(1) have "wall m c (GetDir c (Neighbor c d))
        = wall m (Neighbor c d) (GetDir (Neighbor c d) c)"
      unfolding wall_symmetric_def by blast
    then show "wall m c d = wall m (Neighbor c d) (ReverseDirection d)"
      by (simp add: nb)
  qed
qed

paragraph \<open>A grid of three by three rooms\<close>

text \<open>
  A random source that puts the start at \<open>(0, 0)\<close> and the treasure at \<open>(2, 2)\<close>, and the
  maze that \<^verbatim>\<open>createMaze\<close> builds from it: a spanning tree of eight open passages.
\<close>

definition nine_src :: rand_src where
  "nine_src = \<lparr>ints = [0, 0, 2, 2, 1, 0, 1, 0, 1], perms = []\<rparr>"

definition nine_maze :: Maze where
  "nine_maze =
     \<lparr>rooms = 
        [[\<lparr>Treasure = False, Start = True, Walls = \<lparr>Top = True, Right = False, Bottom = False, Left = True\<rparr>\<rparr>,
          \<lparr>Treasure = False, Start = False, Walls = \<lparr>Top = True, Right = False, Bottom = False, Left = False\<rparr>\<rparr>,
          \<lparr>Treasure = False, Start = False, Walls = \<lparr>Top = True, Right = True, Bottom = True, Left = False\<rparr>\<rparr>],
         [\<lparr>Treasure = False, Start = False, Walls = \<lparr>Top = False, Right = True, Bottom = False, Left = True\<rparr>\<rparr>,
          \<lparr>Treasure = False, Start = False, Walls = \<lparr>Top = False, Right = False, Bottom = True, Left = True\<rparr>\<rparr>,
          \<lparr>Treasure = False, Start = False, Walls = \<lparr>Top = True, Right = True, Bottom = False, Left = False\<rparr>\<rparr>],
         [\<lparr>Treasure = False, Start = False, Walls = \<lparr>Top = False, Right = False, Bottom = True, Left = True\<rparr>\<rparr>,
          \<lparr>Treasure = False, Start = False, Walls = \<lparr>Top = True, Right = True, Bottom = True, Left = False\<rparr>\<rparr>,
          \<lparr>Treasure = True, Start = False, Walls = \<lparr>Top = False, Right = True, Bottom = True, Left = True\<rparr>\<rparr>
        ]],
      start = \<lparr>X = 0, Y = 0\<rparr>, endc = \<lparr>X = 2, Y = 2\<rparr>, icarus = \<lparr>X = 0, Y = 0\<rparr>, StepsTaken = 0\<rparr>"

lemma createMaze_nine: "createMaze 3 3 nine_src = Some (nine_maze, \<lparr>ints = [1], perms = []\<rparr>)"
  by code_simp

lemma wf_nine: "wf_maze nine_maze"
  by code_simp

text \<open>
  A second random source for the grid of three by three rooms: the start is drawn at
  \<open>(1, 1)\<close>, the treasure falls on it and is drawn again, at \<open>(2, 0)\<close>.
\<close>

definition nine_again :: rand_src where
  "nine_again = \<lparr>ints = [1, 1, 1, 1, 2, 0], perms = []\<rparr>"

definition nine_empty :: Maze where
  "nine_empty =
     \<lparr>rooms = replicate 3 (replicate 3 Room0), start = \<lparr>X = 0, Y = 0\<rparr>, endc = \<lparr>X = 0, Y = 0\<rparr>,
      icarus = \<lparr>X = 0, Y = 0\<rparr>, StepsTaken = 0\<rparr>"

text \<open>
  Claim C6. After maze creation, that is boundary sealing followed by route paving and
  flood-fill carving, every room in row \<open>0\<close> has a North wall, every room in the last row
  has a South wall, every room in column \<open>0\<close> has a West wall, and every room in the last
  column has an East wall.

  Every maze that \<^verbatim>\<open>createMaze\<close> returns, whatever the sizes and the random source, is a
  rectangular grid of the requested width and height whose boundary is sealed. And
  \<^verbatim>\<open>createMaze\<close> does return such a maze: for sides that are positive and at most
  \<open>maxSide\<close>, and every random source, once the loop that draws the treasure away from
  the start has ended, boundary sealing, route paving and flood fill neither panic nor run
  forever.
\<close>

theorem boundary_sealed_after_creation:
  "(createMaze xSize ySize rs = Some (m, rs') \<longrightarrow>
      wf_maze m \<and> Width m = xSize \<and> Height m = ySize \<and> boundary_sealed m)
   \<and> (0 < xSize \<and> xSize \<le> maxSide \<and> 0 < ySize \<and> ySize \<le> maxSide
       \<and> emptyMaze xSize ySize = Some m0
       \<and> Intn (Width m0) rs = Some (sx, rs1) \<and> Intn (Height m0) rs1 = Some (sy, rs2)
       \<and> Intn (Width m0) rs2 = Some (dx0, rs3) \<and> Intn (Height m0) rs3 = Some (dy0, rs4)
       \<and> redraw m0 sx sy dx0 dy0 rs4 = Some (dst, rs5)
      \<longrightarrow> (\<exists>m rs'. createMaze xSize ySize rs = Some (m, rs')
             \<and> wf_maze m \<and> Width m = xSize \<and> Height m = ySize \<and> boundary_sealed m))"
proof (rule conjI [OF impI impI])
  assume "createMaze xSize ySize rs = Some (m, rs')"
  from createMaze_ok [OF this]
  show "wf_maze m \<and> Width m = xSize \<and> Height m = ySize \<and> boundary_sealed m"
    using outer_boundary [of m] by (simp add: good_maze_def)
next
  assume h: "0 < xSize \<and> xSize \<le> maxSide \<and> 0 < ySize \<and> ySize \<le> maxSide
       \<and> emptyMaze xSize ySize = Some m0
       \<and> Intn (Width m0) rs = Some (sx, rs1) \<and> Intn (Height m0) rs1 = Some (sy, rs2)
       \<and> Intn (Width m0) rs2 = Some (dx0, rs3) \<and> Intn (Height m0) rs3 = Some (dy0, rs4)
       \<and> redraw m0 sx sy dx0 dy0 rs4 = Some (dst, rs5)"
  from createMaze_returns [of xSize ySize m0 rs sx rs1 sy rs2 dx0 rs3 dy0 rs4 dst rs5] h
  obtain m rs' where c: "createMaze xSize ySize rs = Some (m, rs')"
    and g: "good_maze xSize ySize m" by blast
  from g h have "wf_maze m \<and> Width m = xSize \<and> Height m = ySize \<and> boundary_sealed m"
    using outer_boundary [of m] by (simp add: good_maze_def)
  with c show "\<exists>m rs'. createMaze xSize ySize rs = Some (m, rs')
             \<and> wf_maze m \<and> Width m = xSize \<and> Height m = ySize \<and> boundary_sealed m"
    by blast
qed

theorem boundary_sealed_after_creation_witness:
  "createMaze 3 3 nine_src = Some (nine_maze, \<lparr>ints = [1], perms = []\<rparr>)
   \<and> wf_maze nine_maze \<and> Width nine_maze = 3 \<and> Height nine_maze = 3 \<and> boundary_sealed nine_maze
   \<and> emptyMaze 3 3 = Some nine_empty
   \<and> redraw nine_empty 1 1 1 1 \<lparr>ints = [2, 0], perms = []\<rparr>
       = Some ((2, 0), \<lparr>ints = [], perms = []\<rparr>)
   \<and> (\<exists>m rs'. createMaze 3 3 nine_again = Some (m, rs')
        \<and> wf_maze m \<and> Width m = 3 \<and> Height m = 3 \<and> boundary_sealed m)"
proof -
  have e: "emptyMaze 3 3 = Some nine_empty"
    by (simp add: emptyMaze_def nine_empty_def maxSide_def NewCoordinate_def)
  have w: "Width nine_empty = 3" "Height nine_empty = 3"
    by (simp_all add: nine_empty_def Width_def Height_def numeral_3_eq_3)
  have i: "Intn 3 nine_again = Some (1, \<lparr>ints = [1, 1, 1, 2, 0], perms = []\<rparr>)"
    "Intn 3 \<lparr>ints = [1, 1, 1, 2, 0], perms = []\<rparr> = Some (1, \<lparr>ints = [1, 1, 2, 0], perms = []\<rparr>)"
    "Intn 3 \<lparr>ints = [1, 1, 2, 0], perms = []\<rparr> = Some (1, \<lparr>ints = [1, 2, 0], perms = []\<rparr>)"
    "Intn 3 \<lparr>ints = [1, 2, 0], perms = []\<rparr> = Some (1, \<lparr>ints = [2, 0], perms = []\<rparr>)"
    "Intn 3 \<lparr>ints = [2, 0], perms = []\<rparr> = Some (2, \<lparr>ints = [0], perms = []\<rparr>)"
    "Intn 3 \<lparr>ints = [0], perms = []\<rparr> = Some (0, \<lparr>ints = [], perms = []\<rparr>)"
    by (simp_all add: Intn_def nine_again_def)
  have r: "redraw nine_empty 1 1 1 1 \<lparr>ints = [2, 0], perms = []\<rparr>
       = Some ((2, 0), \<lparr>ints = [], perms = []\<rparr>)"
    by (subst redraw.simps, simp add: w i, subst redraw.simps, simp)
  note t1 = boundary_sealed_after_creation [where xSize = 3 and ySize = 3 and rs = nine_src
      and m = nine_maze and rs' = "\<lparr>ints = [1], perms = []\<rparr>", THEN conjunct1]
  note t2 = boundary_sealed_after_creation [where xSize = 3 and ySize = 3 and rs = nine_again
      and ?m0.0 = nine_empty and sx = 1 and sy = 1 and ?dx0.0 = 1 and ?dy0.0 = 1
      and ?rs1.0 = "\<lparr>ints = [1, 1, 1, 2, 0], perms = []\<rparr>"
      and ?rs2.0 = "\<lparr>ints = [1, 1, 2, 0], perms = []\<rparr>"
      and ?rs3.0 = "\<lparr>ints = [1, 2, 0], perms = []\<rparr>"
      and ?rs4.0 = "\<lparr>ints = [2, 0], perms = []\<rparr>"
      and dst = "(2, 0)" and ?rs5.0 = "\<lparr>ints = [], perms = []\<rparr>", THEN conjunct2]
  have "\<exists>m rs'. createMaze 3 3 nine_again = Some (m, rs')
        \<and> wf_maze m \<and> Width m = 3 \<and> Height m = 3 \<and> boundary_sealed m"
    using t2 e w i(1-4) r by (simp add: maxSide_def)
  with t1 createMaze_nine e r show ?thesis by simp
qed

text \<open>
  Claim C2. After maze generation, for every pair of grid-adjacent rooms \<open>A\<close> and \<open>B\<close>,
  \<open>A\<close> has a wall facing \<open>B\<close> if and only if \<open>B\<close> has a wall facing \<open>A\<close>; and every
  individual wall mutation of the generation keeps this: boundary sealing
  (\<^verbatim>\<open>addBoundary\<close>), adding a wall at a room of the grid (\<^verbatim>\<open>addWall\<close>) and sealing one
  (\<^verbatim>\<open>sealRoom\<close>), and removing the wall between two adjacent rooms of the grid
  (\<^verbatim>\<open>removeWallBetween\<close>), which is how route paving and flood fill call them: the
  route stays in the grid and its consecutive rooms are adjacent (\<open>findRoute_ok\<close>), and
  the flood fill moves between adjacent rooms of the grid (\<open>floodfill_ok\<close>).
\<close>

theorem walls_symmetric_after_every_mutation:
  "(createMaze xSize ySize rs = Some (m, rs') \<longrightarrow> wall_symmetric m)
   \<and> (wf_maze m0 \<and> wall_symmetric m0 \<longrightarrow> wall_symmetric (addBoundary m0))
   \<and> (wf_maze m0 \<and> wall_symmetric m0 \<and> Maze_contains m0 c \<and> is_dir d
      \<longrightarrow> wall_symmetric (addWall m0 c d) \<and> wall_symmetric (sealRoom m0 c))
   \<and> (wf_maze m0 \<and> wall_symmetric m0 \<and> Maze_contains m0 c1 \<and> Maze_contains m0 c2
       \<and> adjacent c1 c2
      \<longrightarrow> wall_symmetric (removeWallBetween m0 c1 c2))"
proof (intro conjI impI)
  assume "createMaze xSize ySize rs = Some (m, rs')"
  then have "good_maze xSize ySize m" using createMaze_ok [of xSize ySize rs m rs'] by simp
  then show "wall_symmetric m" using sym_walls_iff [of m] by (simp add: good_maze_def)
next
  assume h: "wf_maze m0 \<and> wall_symmetric m0"
  then have "sym_walls (addBoundary m0)"
    using addBoundary_inv(2) [of m0] sym_walls_iff [of m0] by simp
  then show "wall_symmetric (addBoundary m0)"
    using sym_walls_iff [of "addBoundary m0"] addBoundary_walls(1) [of m0] h by simp
next
  assume h: "wf_maze m0 \<and> wall_symmetric m0 \<and> Maze_contains m0 c \<and> is_dir d"
  then have s: "sym_walls m0" using sym_walls_iff [of m0] by simp
  from h s have "sym_walls (addWall m0 c d)" using addWall_inv(1) [of m0 c d] by simp
  then show "wall_symmetric (addWall m0 c d)"
    using sym_walls_iff [of "addWall m0 c d"] addWall_size [of m0 c d] h by simp
  from h s have "sym_walls (sealRoom m0 c)" using sealRoom_inv(2) [of m0 c] by simp
  then show "wall_symmetric (sealRoom m0 c)"
    using sym_walls_iff [of "sealRoom m0 c"] sealRoom_inv(1) [of m0 c] h by simp
next
  assume h: "wf_maze m0 \<and> wall_symmetric m0 \<and> Maze_contains m0 c1 \<and> Maze_contains m0 c2
       \<and> adjacent c1 c2"
  then have s: "sym_walls m0" using sym_walls_iff [of m0] by simp
  from h s have "sym_walls (removeWallBetween m0 c1 c2)"
    using removeWallBetween_inv(1) [of m0 c1 c2] by simp
  then show "wall_symmetric (removeWallBetween m0 c1 c2)"
    using sym_walls_iff [of "removeWallBetween m0 c1 c2"] removeWallBetween_size [of m0 c1 c2] h
    by simp
qed

theorem walls_symmetric_after_every_mutation_witness:
  "wall_symmetric nine_maze
   \<and> wall_symmetric (addBoundary nine_maze)
   \<and> wall_symmetric (addWall nine_maze \<lparr>X = 1, Y = 1\<rparr> S)
   \<and> wall_symmetric (sealRoom nine_maze \<lparr>X = 1, Y = 1\<rparr>)
   \<and> wall_symmetric (removeWallBetween nine_maze \<lparr>X = 1, Y = 1\<rparr> \<lparr>X = 1, Y = 2\<rparr>)"
proof -
  have c: "Maze_contains nine_maze \<lparr>X = 1, Y = 1\<rparr>" "Maze_contains nine_maze \<lparr>X = 1, Y = 2\<rparr>"
    "adjacent \<lparr>X = 1, Y = 1\<rparr> \<lparr>X = 1, Y = 2\<rparr>"
    by (simp_all add: Maze_contains_def Width_def Height_def nine_maze_def adjacent_def)
  note t = walls_symmetric_after_every_mutation [where xSize = 3 and ySize = 3 and rs = nine_src
      and m = nine_maze and rs' = "\<lparr>ints = [1], perms = []\<rparr>" and ?m0.0 = nine_maze
      and c = "\<lparr>X = 1, Y = 1\<rparr>" and d = S and ?c1.0 = "\<lparr>X = 1, Y = 1\<rparr>"
      and ?c2.0 = "\<lparr>X = 1, Y = 2\<rparr>"]
  from t createMaze_nine have s: "wall_symmetric nine_maze" by blast
  with t wf_nine c show ?thesis using is_dir_simps(2) by blast
qed

end
